theory Spec2Isabelle
  imports Complex_Main "HOL-Library.Char_ord" "HOL-Library.Code_Target_Nat"
begin

section \<open>Go strings\<close>

text \<open>
  A Go \<^verbatim>\<open>string\<close> is a sequence of bytes, here a \<^typ>\<open>string\<close>. The functions of the
  packages \<^verbatim>\<open>strings\<close>, \<^verbatim>\<open>unicode\<close> and \<^verbatim>\<open>regexp\<close> read such a sequence as UTF-8: they walk
  it rune by rune, and a byte that starts no well-formed encoding is read as the rune
  U+FFFD of width one. A rune is a code point, here a natural number.
\<close>

type_synonym rune = nat

definition RuneError :: rune where
  "RuneError = 0xFFFD"

definition cont :: "char \<Rightarrow> bool" where
  "cont c \<longleftrightarrow> 0x80 \<le> (of_char c :: nat) \<and> (of_char c :: nat) \<le> 0xBF"

text \<open>
  The second byte of a three or four byte encoding has a narrower range after the lead
  bytes E0, ED, F0 and F4 (no overlong form, no surrogate, nothing above U+10FFFF).
\<close>

definition accept_lo :: "nat \<Rightarrow> nat" where
  "accept_lo b0 = (if b0 = 0xE0 then 0xA0 else if b0 = 0xF0 then 0x90 else 0x80)"

definition accept_hi :: "nat \<Rightarrow> nat" where
  "accept_hi b0 = (if b0 = 0xED then 0x9F else if b0 = 0xF4 then 0x8F else 0xBF)"

text \<open>\<^verbatim>\<open>utf8.DecodeRuneInString\<close>: the first rune of the string and its width in bytes.\<close>

fun DecodeRune :: "string \<Rightarrow> rune \<times> nat" where
  "DecodeRune [] = (RuneError, 0)"
| "DecodeRune (c0 # s) =
    (let b0 = (of_char c0 :: nat) in
     if b0 < 0x80 then (b0, 1)
     else if 0xC2 \<le> b0 \<and> b0 \<le> 0xDF then
       (case s of
          c1 # _ \<Rightarrow>
            if cont c1 then ((b0 mod 32) * 64 + of_char c1 mod 64, 2) else (RuneError, 1)
        | _ \<Rightarrow> (RuneError, 1))
     else if 0xE0 \<le> b0 \<and> b0 \<le> 0xEF then
       (case s of
          c1 # c2 # _ \<Rightarrow>
            if accept_lo b0 \<le> of_char c1 \<and> of_char c1 \<le> accept_hi b0 \<and> cont c2
            then ((b0 mod 16) * 4096 + (of_char c1 mod 64) * 64 + of_char c2 mod 64, 3)
            else (RuneError, 1)
        | _ \<Rightarrow> (RuneError, 1))
     else if 0xF0 \<le> b0 \<and> b0 \<le> 0xF4 then
       (case s of
          c1 # c2 # c3 # _ \<Rightarrow>
            if accept_lo b0 \<le> of_char c1 \<and> of_char c1 \<le> accept_hi b0 \<and> cont c2 \<and> cont c3
            then ((b0 mod 8) * 262144 + (of_char c1 mod 64) * 4096
                    + (of_char c2 mod 64) * 64 + of_char c3 mod 64, 4)
            else (RuneError, 1)
        | _ \<Rightarrow> (RuneError, 1))
     else (RuneError, 1))"

text \<open>
  \<^verbatim>\<open>utf8.AppendRune\<close>, which is also the conversion \<^verbatim>\<open>string(b)\<close> of a byte or rune: the
  UTF-8 encoding of a code point, that of U+FFFD for a surrogate or a value out of range.
\<close>

definition EncodeRune :: "rune \<Rightarrow> string" where
  "EncodeRune r =
    (if r \<le> 0x7F then [char_of r]
     else if r \<le> 0x7FF then [char_of (0xC0 + r div 64), char_of (0x80 + r mod 64)]
     else if r > 0x10FFFF \<or> (0xD800 \<le> r \<and> r \<le> 0xDFFF) then [CHR 0xEF, CHR 0xBF, CHR 0xBD]
     else if r \<le> 0xFFFF then
       [char_of (0xE0 + r div 4096), char_of (0x80 + (r div 64) mod 64),
        char_of (0x80 + r mod 64)]
     else
       [char_of (0xF0 + r div 262144), char_of (0x80 + (r div 4096) mod 64),
        char_of (0x80 + (r div 64) mod 64), char_of (0x80 + r mod 64)])"

text \<open>
  \<^verbatim>\<open>for _, r := range s\<close>: the runes of a string in order, each with the bytes it was read
  from. The first argument counts the bytes of the current rune still to be passed over.
\<close>

fun range_runes :: "nat \<Rightarrow> string \<Rightarrow> (rune \<times> string) list" where
  "range_runes k [] = []"
| "range_runes 0 (c # s) =
    (let (r, w) = DecodeRune (c # s) in (r, take w (c # s)) # range_runes (w - 1) s)"
| "range_runes (Suc k) (c # s) = range_runes k s"

definition runes :: "string \<Rightarrow> (rune \<times> string) list" where
  "runes s = range_runes 0 s"

text \<open>
  The tables of the package \<^verbatim>\<open>unicode\<close> are not part of the program; the functions below
  take them as a parameter and consult them for runes above U+007F only, as the package
  does. \<open>latin1\<close> holds the rows of the tables for U+0080 to U+00FF and leaves every rune
  above unchanged.
\<close>

record unicode_tables =
  to_upper :: "rune \<Rightarrow> rune"
  to_lower :: "rune \<Rightarrow> rune"
  to_title :: "rune \<Rightarrow> rune"
  is_letter :: "rune \<Rightarrow> bool"
  is_digit :: "rune \<Rightarrow> bool"

definition latin1_upper :: "rune \<Rightarrow> rune" where
  "latin1_upper r =
    (if r = 0xB5 then 0x39C
     else if 0xE0 \<le> r \<and> r \<le> 0xFE \<and> r \<noteq> 0xF7 then r - 32
     else if r = 0xFF then 0x178
     else r)"

definition latin1_lower :: "rune \<Rightarrow> rune" where
  "latin1_lower r = (if 0xC0 \<le> r \<and> r \<le> 0xDE \<and> r \<noteq> 0xD7 then r + 32 else r)"

definition latin1_letter :: "rune \<Rightarrow> bool" where
  "latin1_letter r \<longleftrightarrow>
     r = 0xAA \<or> r = 0xB5 \<or> r = 0xBA \<or> (0xC0 \<le> r \<and> r \<le> 0xFF \<and> r \<noteq> 0xD7 \<and> r \<noteq> 0xF7)"

definition latin1 :: unicode_tables where
  "latin1 = \<lparr>to_upper = latin1_upper, to_lower = latin1_lower, to_title = latin1_upper,
             is_letter = latin1_letter, is_digit = (\<lambda>r. False)\<rparr>"

definition unicode_ToLower :: "unicode_tables \<Rightarrow> rune \<Rightarrow> rune" where
  "unicode_ToLower U r =
    (if r \<le> 0x7F then (if 0x41 \<le> r \<and> r \<le> 0x5A then r + 32 else r) else to_lower U r)"

definition unicode_ToUpper :: "unicode_tables \<Rightarrow> rune \<Rightarrow> rune" where
  "unicode_ToUpper U r =
    (if r \<le> 0x7F then (if 0x61 \<le> r \<and> r \<le> 0x7A then r - 32 else r) else to_upper U r)"

definition unicode_ToTitle :: "unicode_tables \<Rightarrow> rune \<Rightarrow> rune" where
  "unicode_ToTitle U r =
    (if r \<le> 0x7F then (if 0x61 \<le> r \<and> r \<le> 0x7A then r - 32 else r) else to_title U r)"

definition IsSpace :: "rune \<Rightarrow> bool" where
  "IsSpace r \<longleftrightarrow>
    (if r \<le> 0xFF then r \<in> {0x09, 0x0A, 0x0B, 0x0C, 0x0D, 0x20, 0x85, 0xA0}
     else r = 0x1680 \<or> (0x2000 \<le> r \<and> r \<le> 0x200A) \<or> r = 0x2028 \<or> r = 0x2029
            \<or> r = 0x202F \<or> r = 0x205F \<or> r = 0x3000)"

text \<open>
  \<^verbatim>\<open>strings.Map\<close> with a mapping that returns no negative value: every rune is replaced by
  the encoding of its image, so a byte that is not well-formed UTF-8 becomes the image of
  U+FFFD. \<^verbatim>\<open>strings.ToLower\<close> and \<^verbatim>\<open>strings.ToUpper\<close> are this map; on a string of ASCII bytes
  only they take a shorter way to the same result.
\<close>

definition Map_runes :: "(rune \<Rightarrow> rune) \<Rightarrow> string \<Rightarrow> string" where
  "Map_runes f s = concat (map (\<lambda>(r, bs). EncodeRune (f r)) (runes s))"

definition ToLower :: "unicode_tables \<Rightarrow> string \<Rightarrow> string" where
  "ToLower U s = Map_runes (unicode_ToLower U) s"

definition ToUpper :: "unicode_tables \<Rightarrow> string \<Rightarrow> string" where
  "ToUpper U s = Map_runes (unicode_ToUpper U) s"

text \<open>
  \<^verbatim>\<open>strings.Title\<close>: the title case of every rune that follows a separator, the start of the
  string counting as one.
\<close>

definition isSeparator :: "unicode_tables \<Rightarrow> rune \<Rightarrow> bool" where
  "isSeparator U r =
    (if r \<le> 0x7F then
       \<not> ((0x30 \<le> r \<and> r \<le> 0x39) \<or> (0x61 \<le> r \<and> r \<le> 0x7A) \<or> (0x41 \<le> r \<and> r \<le> 0x5A)
          \<or> r = 0x5F)
     else if is_letter U r \<or> is_digit U r then False
     else IsSpace r)"

fun title_runes :: "unicode_tables \<Rightarrow> rune \<Rightarrow> (rune \<times> string) list \<Rightarrow> string" where
  "title_runes U prev [] = []"
| "title_runes U prev ((r, bs) # rs) =
    EncodeRune (if isSeparator U prev then unicode_ToTitle U r else r) @ title_runes U r rs"

definition Title :: "unicode_tables \<Rightarrow> string \<Rightarrow> string" where
  "Title U s = title_runes U 0x20 (runes s)"

text \<open>
  \<^verbatim>\<open>strings.TrimSpace\<close> and \<^verbatim>\<open>strings.Fields\<close>. A white space rune is well-formed, so reading
  the string from its end meets the same white space runes as reading it from its start.
\<close>

definition TrimSpace :: "string \<Rightarrow> string" where
  "TrimSpace s =
    concat (map snd (rev (dropWhile (\<lambda>(r, bs). IsSpace r)
      (rev (dropWhile (\<lambda>(r, bs). IsSpace r) (runes s))))))"

fun fields_runes :: "(rune \<times> string) list \<Rightarrow> string \<Rightarrow> string list" where
  "fields_runes [] cur = (if cur = [] then [] else [cur])"
| "fields_runes ((r, bs) # rs) cur =
    (if IsSpace r then (if cur = [] then [] else [cur]) @ fields_runes rs []
     else fields_runes rs (cur @ bs))"

definition Fields :: "string \<Rightarrow> string list" where
  "Fields s = fields_runes (runes s) []"

text \<open>\<^verbatim>\<open>strings.Join\<close>.\<close>

fun Join :: "string list \<Rightarrow> string \<Rightarrow> string" where
  "Join [] sep = []"
| "Join [w] sep = w"
| "Join (w # ws) sep = w @ sep @ Join ws sep"

text \<open>
  \<^verbatim>\<open>strings.ReplaceAll(s, old, new)\<close>: the occurrences of \<open>old\<close> from the left, none
  overlapping another; an empty \<open>old\<close> matches before every rune and at the end.
\<close>

fun replace_from :: "nat \<Rightarrow> string \<Rightarrow> string \<Rightarrow> string \<Rightarrow> string" where
  "replace_from k [] old new = []"
| "replace_from 0 (c # s) old new =
    (if take (length old) (c # s) = old then new @ replace_from (length old - 1) s old new
     else c # replace_from 0 s old new)"
| "replace_from (Suc k) (c # s) old new = replace_from k s old new"

definition ReplaceAll :: "string \<Rightarrow> string \<Rightarrow> string \<Rightarrow> string" where
  "ReplaceAll s old new =
    (if old = [] then new @ concat (map (\<lambda>(r, bs). bs @ new) (runes s))
     else replace_from 0 s old new)"

text \<open>\<^verbatim>\<open>strings.Contains\<close>.\<close>

fun Contains :: "string \<Rightarrow> string \<Rightarrow> bool" where
  "Contains [] substr = (substr = [])"
| "Contains (c # s) substr = (take (length substr) (c # s) = substr \<or> Contains s substr)"

text \<open>
  The regular expression \<^verbatim>\<open>[^a-z0-9-]\<close> matches one rune at a time: every rune but the
  ASCII bytes of the class, a badly encoded byte among them. Replacing all its matches by
  the empty string keeps the bytes of the class and drops every other byte.
\<close>

definition inClass :: "char \<Rightarrow> bool" where
  "inClass c \<longleftrightarrow>
    (CHR ''a'' \<le> c \<and> c \<le> CHR ''z'') \<or> (CHR ''0'' \<le> c \<and> c \<le> CHR ''9'') \<or> c = CHR ''-''"

definition stripOutsideClass :: "string \<Rightarrow> string" where
  "stripOutsideClass s = filter inClass s"


section \<open>The pure functions of the generator\<close>

definition generateSlug :: "unicode_tables \<Rightarrow> string \<Rightarrow> string \<Rightarrow> string" where
  "generateSlug U provider title =
    (let clean = stripOutsideClass (ToLower U (ReplaceAll title '' '' ''-''))
     in ToLower U provider @ ''-'' @ clean)"

text \<open>
  \<^verbatim>\<open>cleanDisplayName\<close>; \<open>capitalize\<close> is the body of its loop over the words.
  \<^verbatim>\<open>word[0]\<close> is the first byte of the word and \<^verbatim>\<open>string(word[0])\<close> the encoding of the
  code point of that number; \<^verbatim>\<open>word[1:]\<close> is the word without its first byte.
\<close>

definition capitalize :: "unicode_tables \<Rightarrow> string \<Rightarrow> string" where
  "capitalize U word =
    (if length word > 0
     then ToUpper U (EncodeRune (of_char (hd word))) @ ToLower U (tl word)
     else word)"

definition cleanDisplayName :: "unicode_tables \<Rightarrow> string \<Rightarrow> string" where
  "cleanDisplayName U title =
    (let name = TrimSpace title;
         name = ReplaceAll (ReplaceAll name ''_'' '' '') ''-'' '' '';
         words = Fields name
     in Join (map (capitalize U) words) '' '')"

definition determineDefaultWidth :: "string \<Rightarrow> int" where
  "determineDefaultWidth category =
    (if category = ''network'' \<or> category = ''container'' then 128
     else if category = ''storage'' \<or> category = ''database'' then 96
     else 64)"

definition popularServices :: "string list" where
  "popularServices =
    [''ec2'', ''s3'', ''lambda'', ''rds'', ''dynamodb'',
     ''vpc'', ''eks'', ''ecs'', ''kubernetes'', ''docker'']"

text \<open>
  The loop of \<^verbatim>\<open>calculatePopularity\<close> visits the keys of the map in no fixed order and
  returns at the first one the title contains, so its result is whether there is one.
  The two \<^verbatim>\<open>float32\<close> results, 1.0 and 0.5, are exact; they are reals here.
\<close>

definition calculatePopularity :: "unicode_tables \<Rightarrow> string \<Rightarrow> real" where
  "calculatePopularity U title =
    (let titleLower = ToLower U title
     in if list_ex (\<lambda>service. Contains titleLower service) popularServices then 1 else 1 / 2)"

definition providerMap :: "(string \<times> string) list" where
  "providerMap =
    [(''AWS'', ''Amazon Web Services''), (''AZURE'', ''Microsoft Azure''),
     (''GCP'', ''Google Cloud Platform''), (''ESSENTIALS'', ''Essential Icons''),
     (''DEV'', ''Development Tools''), (''INFRA'', ''Infrastructure''),
     (''TECH'', ''Technology''), (''SOCIAL'', ''Social Media''), (''EMOTIONS'', ''Emojis'')]"

definition getFullProviderName :: "unicode_tables \<Rightarrow> string \<Rightarrow> string" where
  "getFullProviderName U provider =
    (case map_of providerMap (ToUpper U provider) of
       Some fullName \<Rightarrow> fullName
     | None \<Rightarrow> Title U (ToLower U provider))"


section \<open>JSON text of a list of strings\<close>

text \<open>
  \<^verbatim>\<open>json.Marshal\<close> on a \<^verbatim>\<open>[]string\<close>. A string is written between double quotes, rune by
  rune: an ASCII byte as itself unless it is a control character, a double quote, a
  backslash or one of \<^verbatim>\<open><\<close>, \<^verbatim>\<open>>\<close>, \<^verbatim>\<open>&\<close>; a byte that is not well-formed UTF-8 as the
  escape of U+FFFD; U+2028 and U+2029 as escapes; every other rune as its own bytes.
  Backspace and form feed are written with their short escapes; releases of Go before 1.22
  write them with four hexadecimal digits, which reads back the same.
\<close>

definition hexDigit :: "nat \<Rightarrow> char" where
  "hexDigit n = ''0123456789abcdef'' ! (n mod 16)"

definition htmlSafe :: "rune \<Rightarrow> bool" where
  "htmlSafe r \<longleftrightarrow>
     0x20 \<le> r \<and> r < 0x80 \<and> r \<noteq> 0x22 \<and> r \<noteq> 0x26 \<and> r \<noteq> 0x3C \<and> r \<noteq> 0x3E \<and> r \<noteq> 0x5C"

definition quoteRune :: "rune \<times> string \<Rightarrow> string" where
  "quoteRune p =
    (case p of (r, bs) \<Rightarrow>
      if r < 0x80 then
        (if htmlSafe r then bs
         else if r = 0x5C \<or> r = 0x22 then CHR 0x5C # bs
         else if r = 0x08 then [CHR 0x5C, CHR ''b'']
         else if r = 0x0C then [CHR 0x5C, CHR ''f'']
         else if r = 0x0A then [CHR 0x5C, CHR ''n'']
         else if r = 0x0D then [CHR 0x5C, CHR ''r'']
         else if r = 0x09 then [CHR 0x5C, CHR ''t'']
         else [CHR 0x5C, CHR ''u'', CHR ''0'', CHR ''0'', hexDigit (r div 16), hexDigit r])
      else if r = RuneError \<and> length bs = 1 then CHR 0x5C # ''ufffd''
      else if r = 0x2028 \<or> r = 0x2029 then CHR 0x5C # ''u202'' @ [hexDigit r]
      else bs)"

definition appendString :: "string \<Rightarrow> string" where
  "appendString s = CHR 0x22 # concat (map quoteRune (runes s)) @ [CHR 0x22]"

definition marshalStrings :: "string list \<Rightarrow> string" where
  "marshalStrings arr = ''['' @ Join (map appendString arr) '','' @ '']''"

text \<open>
  \<^verbatim>\<open>arrayToJSON\<close>. A \<^verbatim>\<open>nil\<close> slice and an empty one both have length 0 and are the empty
  list here. The error of \<^verbatim>\<open>json.Marshal\<close> is discarded by the source; there is none on a
  slice of strings.
\<close>

definition arrayToJSON :: "string list \<Rightarrow> string" where
  "arrayToJSON arr = (if length arr = 0 then ''[]'' else marshalStrings arr)"


section \<open>Data model\<close>

record PendingIcon =
  Category :: string
  Title :: string
  Link :: string
  DisplayName :: string

record LLMEnrichmentResponse =
  Category :: string
  Aliases :: "string list"
  TechnicalIntent :: string
  SemanticProfile :: string
  Tags :: "string list"
  ShapeType :: string
  IsContainer :: bool
  BrandColor :: string

record BatchIconInput =
  Provider :: string
  Title :: string
  DisplayName :: string

record BatchClassifyRequest =
  Icons :: "BatchIconInput list"

record BatchClassifyResponse =
  Results :: "LLMEnrichmentResponse list"
  Total :: int
  ProcessingTimeMs :: real

record IconifySearchResult =
  Icons :: "string list"
  Total :: int

record IconPayload =
  ID :: string
  Slug :: string
  IconifyID :: string
  Provider :: string
  URL :: string
  SemanticProfile :: string
  DisplayName :: string
  Aliases :: string
  Description :: string
  TechnicalIntent :: string
  ShapeType :: string
  DefaultWidth :: int
  IsContainer :: bool
  IconPosition :: string
  ColorTheme :: string
  Popularity :: real
  Tags :: string
  LastScraped :: string

text \<open>The zero value \<^verbatim>\<open>LLMEnrichmentResponse{}\<close>.\<close>

definition zeroEnrichment :: LLMEnrichmentResponse where
  "zeroEnrichment =
    \<lparr>LLMEnrichmentResponse.Category = [], LLMEnrichmentResponse.Aliases = [],
     LLMEnrichmentResponse.TechnicalIntent = [], LLMEnrichmentResponse.SemanticProfile = [],
     LLMEnrichmentResponse.Tags = [], LLMEnrichmentResponse.ShapeType = [],
     LLMEnrichmentResponse.IsContainer = False, LLMEnrichmentResponse.BrandColor = []\<rparr>"

definition sourceURL :: string where
  "sourceURL = ''https://icons.terrastruct.com''"

definition batchSize :: nat where
  "batchSize = 5"

text \<open>
  The switches of the source are constants, \<open>source_config\<close>. The two branches of
  \<^verbatim>\<open>Generate\<close> are stated for any setting of them.
\<close>

record config =
  useLLMEnrichment :: bool
  useBatchProcessing :: bool



section \<open>The services and the identifiers\<close>

text \<open>
  The program talks to three services and draws identifiers from \<^verbatim>\<open>uuid.New\<close>. The world
  keeps the exchanges the program has started, oldest first, and the number of
  identifiers drawn. What a service answers is given by the environment, from the whole
  history up to and with the exchange in question. An exchange says whether
  \<^verbatim>\<open>json.Marshal\<close> failed, whether the request could not be built, and what
  \<^verbatim>\<open>httpClient.Do\<close> returned: nothing on an error, otherwise the status code and the body
  as the JSON decoder reads it into the target (nothing when the decoder fails). A function
  reads the parts the source reads, in its order. \<open>uuid_New\<close> gives the identifier of
  each draw by its number.
\<close>

datatype event =
    HealthGet
  | SearchGet string
  | BatchPost BatchClassifyRequest
  | ClassifyPost string string string

record 'a exchange =
  marshalErr :: bool
  requestErr :: bool
  doResult :: "(int \<times> 'a option) option"

record env =
  unicode :: unicode_tables
  health_reply :: "event list \<Rightarrow> unit exchange"
  search_reply :: "event list \<Rightarrow> IconifySearchResult exchange"
  batch_reply :: "event list \<Rightarrow> BatchClassifyResponse exchange"
  classify_reply :: "event list \<Rightarrow> LLMEnrichmentResponse exchange"
  uuid_New :: "nat \<Rightarrow> string"

record world =
  events :: "event list"
  drawn :: nat

datatype panic = IndexOutOfRange | SliceBoundsOutOfRange | NilPointerDereference

definition StatusOK :: int where
  "StatusOK = 200"

definition checkLLMService :: "env \<Rightarrow> world \<Rightarrow> bool \<times> world" where
  "checkLLMService E w =
    (let w' = w\<lparr>events := events w @ [HealthGet]\<rparr>;
         x = health_reply E (events w')
     in if requestErr x then (False, w')
        else case doResult x of
               None \<Rightarrow> (False, w')
             | Some (status, body) \<Rightarrow> (status = StatusOK, w'))"

text \<open>
  The batch request \<^verbatim>\<open>batchEnrichIcons\<close> builds first: one input for every pending icon,
  in order.
\<close>

definition batchInputOf :: "PendingIcon list \<Rightarrow> BatchClassifyRequest" where
  "batchInputOf pending =
    \<lparr>BatchClassifyRequest.Icons =
       map (\<lambda>p. \<lparr>BatchIconInput.Provider = PendingIcon.Category p,
                 BatchIconInput.Title = PendingIcon.Title p,
                 BatchIconInput.DisplayName = PendingIcon.DisplayName p\<rparr>) pending\<rparr>"

definition batchEnrichIcons ::
    "env \<Rightarrow> world \<Rightarrow> PendingIcon list \<Rightarrow> LLMEnrichmentResponse list \<times> world" where
  "batchEnrichIcons E w pending =
    (let batchInput = batchInputOf pending;
         w' = w\<lparr>events := events w @ [BatchPost batchInput]\<rparr>;
         x = batch_reply E (events w')
     in if marshalErr x then (replicate (length pending) zeroEnrichment, w')
        else if requestErr x then (replicate (length pending) zeroEnrichment, w')
        else case doResult x of
               None \<Rightarrow> (replicate (length pending) zeroEnrichment, w')
             | Some (status, body) \<Rightarrow>
                 if status \<noteq> StatusOK then (replicate (length pending) zeroEnrichment, w')
                 else case body of
                        None \<Rightarrow> (replicate (length pending) zeroEnrichment, w')
                      | Some batchResp \<Rightarrow> (Results batchResp, w'))"

text \<open>
  \<^verbatim>\<open>getLLMEnrichment\<close> discards the errors of \<^verbatim>\<open>json.Marshal\<close> and of the construction of
  the request; without a request, setting its header dereferences \<^verbatim>\<open>nil\<close>.
\<close>

definition getLLMEnrichment ::
    "env \<Rightarrow> world \<Rightarrow> string \<Rightarrow> string \<Rightarrow> string \<Rightarrow> panic + (LLMEnrichmentResponse \<times> world)" where
  "getLLMEnrichment E w provider title displayName =
    (let w' = w\<lparr>events := events w @ [ClassifyPost provider title displayName]\<rparr>;
         x = classify_reply E (events w')
     in if requestErr x then Inl NilPointerDereference
        else case doResult x of
               None \<Rightarrow> Inr (zeroEnrichment, w')
             | Some (status, body) \<Rightarrow>
                 if status \<noteq> StatusOK then Inr (zeroEnrichment, w')
                 else case body of
                        None \<Rightarrow> Inr (zeroEnrichment, w')
                      | Some enrichment \<Rightarrow> Inr (enrichment, w'))"

text \<open>
  The loop of \<^verbatim>\<open>verifyIconifyID\<close> over its queries: the first icon of the first answer
  that reports a hit, or nothing. \<^verbatim>\<open>httpClient.Get\<close> builds the request itself and returns
  an error when that or the exchange fails; the status code is not looked at.
\<close>

definition searchURL :: "string \<Rightarrow> string" where
  "searchURL query = ''https://api.iconify.design/search?query='' @ query @ ''&limit=3''"

fun searchQueries :: "env \<Rightarrow> string list \<Rightarrow> world \<Rightarrow> string option \<times> world" where
  "searchQueries E [] w = (None, w)"
| "searchQueries E (query # rest) w =
    (let url = searchURL query;
         w' = w\<lparr>events := events w @ [SearchGet url]\<rparr>;
         x = search_reply E (events w')
     in if requestErr x then searchQueries E rest w'
        else case doResult x of
               None \<Rightarrow> searchQueries E rest w'
             | Some (status, body) \<Rightarrow>
                 (case body of
                    None \<Rightarrow> searchQueries E rest w'
                  | Some result \<Rightarrow>
                      if IconifySearchResult.Total result > 0
                         \<and> length (IconifySearchResult.Icons result) > 0
                      then (Some (hd (IconifySearchResult.Icons result)), w')
                      else searchQueries E rest w'))"

definition verifyIconifyID ::
    "env \<Rightarrow> world \<Rightarrow> string \<Rightarrow> string \<Rightarrow> string \<Rightarrow> string \<times> world" where
  "verifyIconifyID E w provider title slug =
    (let queries = [provider @ '' '' @ title, title, slug]
     in case searchQueries E queries w of
          (Some icon, w') \<Rightarrow> (icon, w')
        | (None, w') \<Rightarrow>
            (let providerLower = ToLower (unicode E) provider;
                 titleClean =
                   stripOutsideClass (ToLower (unicode E) (ReplaceAll title '' '' ''-''))
             in (''logos:'' @ providerLower @ ''-'' @ titleClean, w')))"

definition createIconPayload ::
    "env \<Rightarrow> world \<Rightarrow> string \<Rightarrow> string \<Rightarrow> string \<Rightarrow> string \<Rightarrow> LLMEnrichmentResponse \<Rightarrow> string
      \<Rightarrow> IconPayload \<times> world" where
  "createIconPayload E w provider title link displayName enrichment timestamp =
    (let slug = generateSlug (unicode E) provider title;
         (iconifyID, w1) = verifyIconifyID E w provider title slug;
         description =
           displayName @ '' from '' @ provider @ ''. ''
             @ LLMEnrichmentResponse.TechnicalIntent enrichment;
         iconPosition =
           (if LLMEnrichmentResponse.IsContainer enrichment then ''top-left'' else ''center'');
         w2 = w1\<lparr>drawn := Suc (drawn w1)\<rparr>
     in (\<lparr>ID = uuid_New E (drawn w1),
          Slug = slug,
          IconifyID = iconifyID,
          Provider = getFullProviderName (unicode E) provider,
          URL = sourceURL @ ''/'' @ link,
          SemanticProfile = LLMEnrichmentResponse.SemanticProfile enrichment,
          DisplayName = displayName,
          Aliases = arrayToJSON (LLMEnrichmentResponse.Aliases enrichment),
          Description = description,
          TechnicalIntent = LLMEnrichmentResponse.TechnicalIntent enrichment,
          ShapeType = LLMEnrichmentResponse.ShapeType enrichment,
          DefaultWidth = determineDefaultWidth (LLMEnrichmentResponse.Category enrichment),
          IsContainer = LLMEnrichmentResponse.IsContainer enrichment,
          IconPosition = iconPosition,
          ColorTheme = LLMEnrichmentResponse.BrandColor enrichment,
          Popularity = calculatePopularity (unicode E) title,
          Tags = arrayToJSON (LLMEnrichmentResponse.Tags enrichment),
          LastScraped = timestamp\<rparr>, w2))"


section \<open>The enrichment phase of Generate\<close>

text \<open>
  The state of the two loops: the world, \<^verbatim>\<open>allIcons\<close> and \<^verbatim>\<open>providerIcons\<close>. \<open>addIcon\<close>
  is the shared end of both loop bodies: it builds the payload of a pending icon from an
  enrichment and appends it to both collections.
\<close>

record run =
  world :: world
  allIcons :: "IconPayload list"
  providerIcons :: "string \<rightharpoonup> IconPayload list"

definition addIcon :: "env \<Rightarrow> string \<Rightarrow> PendingIcon \<Rightarrow> LLMEnrichmentResponse \<Rightarrow> run \<Rightarrow> run" where
  "addIcon E timestamp pending enrichment st =
    (let (icon, w') =
           createIconPayload E (world st) (PendingIcon.Category pending)
             (PendingIcon.Title pending) (Link pending) (PendingIcon.DisplayName pending)
             enrichment timestamp;
         group = (case providerIcons st (Provider icon) of None \<Rightarrow> [] | Some icons \<Rightarrow> icons)
     in st\<lparr>world := w', allIcons := allIcons st @ [icon],
           providerIcons := (providerIcons st)(Provider icon \<mapsto> group @ [icon])\<rparr>)"

text \<open>Indexing and slicing as Go checks them.\<close>

definition index :: "'a list \<Rightarrow> nat \<Rightarrow> panic + 'a" where
  "index xs j = (if j < length xs then Inr (xs ! j) else Inl IndexOutOfRange)"

definition slice :: "'a list \<Rightarrow> nat \<Rightarrow> nat \<Rightarrow> panic + 'a list" where
  "slice xs i j =
    (if i \<le> j \<and> j \<le> length xs then Inr (take (j - i) (drop i xs))
     else Inl SliceBoundsOutOfRange)"

text \<open>\<^verbatim>\<open>for j, pending := range batch\<close>, from position \<open>j\<close> on.\<close>

fun batchPayloads ::
    "env \<Rightarrow> string \<Rightarrow> LLMEnrichmentResponse list \<Rightarrow> nat \<Rightarrow> PendingIcon list \<Rightarrow> run
      \<Rightarrow> panic + run" where
  "batchPayloads E timestamp enrichments j [] st = Inr st"
| "batchPayloads E timestamp enrichments j (pending # rest) st =
    (case (if j < length enrichments then index enrichments j else Inr zeroEnrichment) of
       Inl p \<Rightarrow> Inl p
     | Inr enrichment \<Rightarrow>
         batchPayloads E timestamp enrichments (Suc j) rest
           (addIcon E timestamp pending enrichment st))"

text \<open>\<^verbatim>\<open>for i := 0; i < len(pendingIcons); i += batchSize\<close>, from \<open>i\<close> on.\<close>

function batchLoop :: "env \<Rightarrow> string \<Rightarrow> PendingIcon list \<Rightarrow> nat \<Rightarrow> run \<Rightarrow> panic + run" where
  "batchLoop E timestamp pendingIcons i st =
    (if i < length pendingIcons then
       (let end = (if i + batchSize > length pendingIcons then length pendingIcons
                   else i + batchSize)
        in case slice pendingIcons i end of
             Inl p \<Rightarrow> Inl p
           | Inr batch \<Rightarrow>
               (let (enrichments, w') = batchEnrichIcons E (world st) batch
                in case batchPayloads E timestamp enrichments 0 batch (st\<lparr>world := w'\<rparr>) of
                     Inl p \<Rightarrow> Inl p
                   | Inr st' \<Rightarrow> batchLoop E timestamp pendingIcons (i + batchSize) st'))
     else Inr st)"
  by pat_completeness auto
termination
  by (relation "measure (\<lambda>(E, timestamp, pendingIcons, i, st). length pendingIcons - i)")
     (auto simp: batchSize_def)

declare batchLoop.simps [simp del]

text \<open>\<^verbatim>\<open>for _, pending := range pendingIcons\<close> of the other branch.\<close>

fun individualLoop ::
    "config \<Rightarrow> env \<Rightarrow> bool \<Rightarrow> string \<Rightarrow> PendingIcon list \<Rightarrow> run \<Rightarrow> panic + run" where
  "individualLoop cfg E llmServiceAvailable timestamp [] st = Inr st"
| "individualLoop cfg E llmServiceAvailable timestamp (pending # rest) st =
    (if useLLMEnrichment cfg \<and> llmServiceAvailable then
       (case getLLMEnrichment E (world st) (PendingIcon.Category pending)
               (PendingIcon.Title pending) (PendingIcon.DisplayName pending) of
          Inl p \<Rightarrow> Inl p
        | Inr (enrichment, w') \<Rightarrow>
            individualLoop cfg E llmServiceAvailable timestamp rest
              (addIcon E timestamp pending enrichment (st\<lparr>world := w'\<rparr>)))
     else individualLoop cfg E llmServiceAvailable timestamp rest
            (addIcon E timestamp pending zeroEnrichment st))"

text \<open>
  \<^verbatim>\<open>Generate\<close> from the health check to the end of enrichment, on the icons the traversal
  of the page has collected. \<^verbatim>\<open>llmServiceAvailable\<close> starts as \<^verbatim>\<open>false\<close> and is set by the
  health check only; \<open>timestamp\<close> is the time the source reads once before the loops.
\<close>

definition Generate :: "config \<Rightarrow> env \<Rightarrow> world \<Rightarrow> string \<Rightarrow> PendingIcon list \<Rightarrow> panic + run" where
  "Generate cfg E w timestamp pendingIcons =
    (let (llmServiceAvailable, w') =
           (if useLLMEnrichment cfg then checkLLMService E w else (False, w));
         st = \<lparr>world = w', allIcons = [], providerIcons = Map.empty\<rparr>
     in if useLLMEnrichment cfg \<and> llmServiceAvailable \<and> useBatchProcessing cfg
        then batchLoop E timestamp pendingIcons 0 st
        else individualLoop cfg E llmServiceAvailable timestamp pendingIcons st)"


section \<open>The properties in their own words\<close>

text \<open>
  The answer of the search service that counts as a hit: a response whose body reports a
  total above 0 and a list of icons that is not empty; its value is the first of them.
\<close>

definition firstHit :: "IconifySearchResult exchange \<Rightarrow> string option" where
  "firstHit x =
    (case doResult x of
       Some (status, Some result) \<Rightarrow>
         (case IconifySearchResult.Icons result of
            first # others \<Rightarrow>
              if IconifySearchResult.Total result > 0 \<and> \<not> requestErr x then Some first else None
          | [] \<Rightarrow> None)
     | _ \<Rightarrow> None)"

text \<open>
  The title with spaces replaced by hyphens, lower-cased, and stripped of every character
  outside \<^verbatim>\<open>[a-z0-9-]\<close>.
\<close>

definition sanitized :: "unicode_tables \<Rightarrow> string \<Rightarrow> string" where
  "sanitized U title =
    filter (\<lambda>c. c \<in> set ''abcdefghijklmnopqrstuvwxyz0123456789-'')
      (ToLower U (map (\<lambda>c. if c = CHR '' '' then CHR ''-'' else c) title))"

text \<open>
  The request the icon search service is asked for a query \<open>q\<close>:
  \<^verbatim>\<open>GET /search?query=<q>&limit=3\<close>, at the address of the service. The query stands in
  the address as it is.
\<close>

definition searchRequest :: "string \<Rightarrow> string" where
  "searchRequest q = ''https://api.iconify.design'' @ ''/search?query='' @ q @ ''&limit=3''"

text \<open>
  The three queries in their order, "provider title", "title" and "slug", each asked only
  when the ones before gave no hit, and the synthesized identifier when none does.
\<close>

definition verify_in_words ::
    "env \<Rightarrow> world \<Rightarrow> string \<Rightarrow> string \<Rightarrow> string \<Rightarrow> string \<times> world" where
  "verify_in_words E w provider title slug =
    (let w1 = w\<lparr>events := events w @ [SearchGet (searchRequest (provider @ '' '' @ title))]\<rparr>
     in case firstHit (search_reply E (events w1)) of
          Some found \<Rightarrow> (found, w1)
        | None \<Rightarrow>
    (let w2 = w1\<lparr>events := events w1 @ [SearchGet (searchRequest title)]\<rparr>
     in case firstHit (search_reply E (events w2)) of
          Some found \<Rightarrow> (found, w2)
        | None \<Rightarrow>
    (let w3 = w2\<lparr>events := events w2 @ [SearchGet (searchRequest slug)]\<rparr>
     in case firstHit (search_reply E (events w3)) of
          Some found \<Rightarrow> (found, w3)
        | None \<Rightarrow>
            (''logos:'' @ ToLower (unicode E) provider @ ''-'' @ sanitized (unicode E) title,
             w3))))"

text \<open>The batch requests among the exchanges, in order.\<close>

definition batchPosts :: "event list \<Rightarrow> BatchClassifyRequest list" where
  "batchPosts es = concat (map (\<lambda>e. case e of BatchPost b \<Rightarrow> [b] | _ \<Rightarrow> []) es)"

text \<open>
  The slices of a list of size \<open>B\<close>: the \<open>k\<close>-th starts at position \<open>k * B\<close>, and
  there are as many as it takes to cover the list.
\<close>

definition chunk :: "nat \<Rightarrow> 'a list \<Rightarrow> nat \<Rightarrow> 'a list" where
  "chunk B xs k = take B (drop (k * B) xs)"

definition chunks :: "nat \<Rightarrow> 'a list \<Rightarrow> 'a list list" where
  "chunks B xs = map (chunk B xs) [0..<(length xs + B - 1) div B]"

text \<open>
  The enrichment position \<open>j\<close> of a batch is assembled from: result \<open>j\<close> when there is
  one, the zero value otherwise.
\<close>

definition enrichmentAt :: "LLMEnrichmentResponse list \<Rightarrow> nat \<Rightarrow> LLMEnrichmentResponse" where
  "enrichmentAt enrichments j =
    (if j < length enrichments then enrichments ! j else zeroEnrichment)"


text \<open>
  What a stretch of a run from \<open>st\<close> to \<open>st'\<close> over the pending icons \<open>ps\<close> adds: one
  payload for each of them, in order, behind those already there; each with the next
  identifier drawn and with the slug of its provider and title.
\<close>

definition extends :: "env \<Rightarrow> PendingIcon list \<Rightarrow> run \<Rightarrow> run \<Rightarrow> bool" where
  "extends E ps st st' \<longleftrightarrow>
    (\<exists>new. allIcons st' = allIcons st @ new
       \<and> length new = length ps
       \<and> map ID new = map (uuid_New E) [drawn (world st)..<drawn (world st) + length ps]
       \<and> map Slug new
           = map (\<lambda>p. generateSlug (unicode E) (PendingIcon.Category p) (PendingIcon.Title p)) ps
       \<and> drawn (world st') = drawn (world st) + length ps)"


text \<open>
  A payload assembled from a pending icon and an enrichment, as far as its fields are
  determined by the two.
\<close>

definition assembledFrom :: "IconPayload \<Rightarrow> PendingIcon \<Rightarrow> LLMEnrichmentResponse \<Rightarrow> bool" where
  "assembledFrom payload pending enrichment \<longleftrightarrow>
     DisplayName payload = PendingIcon.DisplayName pending
     \<and> URL payload = sourceURL @ ''/'' @ Link pending
     \<and> Description payload =
         PendingIcon.DisplayName pending @ '' from '' @ PendingIcon.Category pending @ ''. ''
           @ LLMEnrichmentResponse.TechnicalIntent enrichment
     \<and> SemanticProfile payload = LLMEnrichmentResponse.SemanticProfile enrichment
     \<and> Aliases payload = arrayToJSON (LLMEnrichmentResponse.Aliases enrichment)
     \<and> TechnicalIntent payload = LLMEnrichmentResponse.TechnicalIntent enrichment
     \<and> ShapeType payload = LLMEnrichmentResponse.ShapeType enrichment
     \<and> DefaultWidth payload = determineDefaultWidth (LLMEnrichmentResponse.Category enrichment)
     \<and> IsContainer payload = LLMEnrichmentResponse.IsContainer enrichment
     \<and> IconPosition payload
         = (if LLMEnrichmentResponse.IsContainer enrichment then ''top-left'' else ''center'')
     \<and> ColorTheme payload = LLMEnrichmentResponse.BrandColor enrichment
     \<and> Tags payload = arrayToJSON (LLMEnrichmentResponse.Tags enrichment)"

text \<open>A payload without enrichment.\<close>

definition unenriched :: "IconPayload \<Rightarrow> bool" where
  "unenriched payload \<longleftrightarrow>
     Aliases payload = ''[]'' \<and> Tags payload = ''[]'' \<and> SemanticProfile payload = []
     \<and> TechnicalIntent payload = [] \<and> \<not> IsContainer payload
     \<and> IconPosition payload = ''center''"


text \<open>
  The display name as described: underscores and hyphens become spaces, the title is
  split at white space, every word gets its first character in upper case and the
  others in lower case, and the words are joined by single spaces. A character is a rune.
\<close>

definition capitalized_in_words :: "unicode_tables \<Rightarrow> string \<Rightarrow> string" where
  "capitalized_in_words U word =
    (case runes word of
       [] \<Rightarrow> []
     | (r, bs) # others \<Rightarrow> EncodeRune (unicode_ToUpper U r) @ ToLower U (concat (map snd others)))"

definition displayName_in_words :: "unicode_tables \<Rightarrow> string \<Rightarrow> string" where
  "displayName_in_words U title =
    Join (map (capitalized_in_words U)
            (Fields (map (\<lambda>c. if c = CHR ''_'' \<or> c = CHR ''-'' then CHR '' '' else c) title)))
      '' ''"

text \<open>
  Reading JSON text back: a decoder for the JSON texts that are arrays of strings (RFC
  8259), as \<^verbatim>\<open>json.Unmarshal\<close> reads them into a \<^verbatim>\<open>[]string\<close>. White space may stand around
  the brackets, the strings and the commas. Inside a string a backslash starts an escape,
  a control character is an error, and a byte that is not well-formed UTF-8 is read as
  U+FFFD. An escaped surrogate pair is one rune; an escaped surrogate alone is U+FFFD.
\<close>

definition hexVal :: "char \<Rightarrow> nat option" where
  "hexVal c =
    (let b = (of_char c :: nat) in
     if 0x30 \<le> b \<and> b \<le> 0x39 then Some (b - 0x30)
     else if 0x61 \<le> b \<and> b \<le> 0x66 then Some (b - 0x61 + 10)
     else if 0x41 \<le> b \<and> b \<le> 0x46 then Some (b - 0x41 + 10)
     else None)"

definition getu4 :: "char \<Rightarrow> char \<Rightarrow> char \<Rightarrow> char \<Rightarrow> rune option" where
  "getu4 h1 h2 h3 h4 =
    (case hexVal h1 of None \<Rightarrow> None | Some a \<Rightarrow>
     case hexVal h2 of None \<Rightarrow> None | Some b \<Rightarrow>
     case hexVal h3 of None \<Rightarrow> None | Some c \<Rightarrow>
     case hexVal h4 of None \<Rightarrow> None | Some d \<Rightarrow>
       Some (((a * 16 + b) * 16 + c) * 16 + d))"

definition isSurrogate :: "rune \<Rightarrow> bool" where
  "isSurrogate r \<longleftrightarrow> 0xD800 \<le> r \<and> r < 0xE000"

definition utf16_DecodeRune :: "rune \<Rightarrow> rune \<Rightarrow> rune" where
  "utf16_DecodeRune r1 r2 =
    (if 0xD800 \<le> r1 \<and> r1 < 0xDC00 \<and> 0xDC00 \<le> r2 \<and> r2 < 0xE000
     then (r1 - 0xD800) * 1024 + (r2 - 0xDC00) + 0x10000
     else RuneError)"

definition unescape :: "char \<Rightarrow> char option" where
  "unescape e =
    (if e = CHR 0x22 \<or> e = CHR 0x5C \<or> e = CHR ''/'' then Some e
     else if e = CHR ''b'' then Some (CHR 0x08)
     else if e = CHR ''f'' then Some (CHR 0x0C)
     else if e = CHR ''n'' then Some (CHR 0x0A)
     else if e = CHR ''r'' then Some (CHR 0x0D)
     else if e = CHR ''t'' then Some (CHR 0x09)
     else None)"

definition isJSONSpace :: "char \<Rightarrow> bool" where
  "isJSONSpace c \<longleftrightarrow> c = CHR '' '' \<or> c = CHR 0x09 \<or> c = CHR 0x0D \<or> c = CHR 0x0A"

text \<open>
  Where the decoder stands: before the array, after its opening bracket, inside a string
  (with the number of bytes of the current rune still to be passed over), after a string,
  after a comma, after the closing bracket.
\<close>

datatype mode = BeforeArray | BeforeFirst | InString nat | AfterString | BeforeNext | AfterArray

fun decodeStrings :: "mode \<Rightarrow> string \<Rightarrow> string list \<Rightarrow> string \<Rightarrow> string list option" where
  "decodeStrings m cur done [] = (if m = AfterArray then Some done else None)"
| "decodeStrings (InString (Suc k)) cur done (c # s) = decodeStrings (InString k) cur done s"
| "decodeStrings (InString 0) cur done (c # s) =
    (if c = CHR 0x22 then decodeStrings AfterString [] (done @ [cur]) s
     else if c = CHR 0x5C then
       (case s of
          [] \<Rightarrow> None
        | e # s1 \<Rightarrow>
            if e = CHR ''u'' then
              (case s1 of
                 h1 # h2 # h3 # h4 # s2 \<Rightarrow>
                   (case getu4 h1 h2 h3 h4 of
                      None \<Rightarrow> None
                    | Some rr \<Rightarrow>
                        if isSurrogate rr then
                          (case s2 of
                             b # u # k1 # k2 # k3 # k4 # s3 \<Rightarrow>
                               (case (if b = CHR 0x5C \<and> u = CHR ''u'' then getu4 k1 k2 k3 k4
                                      else None) of
                                  Some rr1 \<Rightarrow>
                                    if utf16_DecodeRune rr rr1 \<noteq> RuneError
                                    then decodeStrings (InString 0)
                                           (cur @ EncodeRune (utf16_DecodeRune rr rr1)) done s3
                                    else decodeStrings (InString 0)
                                           (cur @ EncodeRune RuneError) done s2
                                | None \<Rightarrow>
                                    decodeStrings (InString 0) (cur @ EncodeRune RuneError) done s2)
                           | _ \<Rightarrow> decodeStrings (InString 0) (cur @ EncodeRune RuneError) done s2)
                        else decodeStrings (InString 0) (cur @ EncodeRune rr) done s2)
               | _ \<Rightarrow> None)
            else (case unescape e of
                    None \<Rightarrow> None
                  | Some d \<Rightarrow> decodeStrings (InString 0) (cur @ [d]) done s1))
     else if (of_char c :: nat) < 0x20 then None
     else if (of_char c :: nat) < 0x80 then decodeStrings (InString 0) (cur @ [c]) done s
     else (let (rr, size) = DecodeRune (c # s)
           in decodeStrings (InString (size - 1)) (cur @ EncodeRune rr) done s))"
| "decodeStrings BeforeArray cur done (c # s) =
    (if isJSONSpace c then decodeStrings BeforeArray cur done s
     else if c = CHR ''['' then decodeStrings BeforeFirst cur done s
     else None)"
| "decodeStrings BeforeFirst cur done (c # s) =
    (if isJSONSpace c then decodeStrings BeforeFirst cur done s
     else if c = CHR '']'' then decodeStrings AfterArray cur done s
     else if c = CHR 0x22 then decodeStrings (InString 0) [] done s
     else None)"
| "decodeStrings AfterString cur done (c # s) =
    (if isJSONSpace c then decodeStrings AfterString cur done s
     else if c = CHR '','' then decodeStrings BeforeNext cur done s
     else if c = CHR '']'' then decodeStrings AfterArray cur done s
     else None)"
| "decodeStrings BeforeNext cur done (c # s) =
    (if isJSONSpace c then decodeStrings BeforeNext cur done s
     else if c = CHR 0x22 then decodeStrings (InString 0) [] done s
     else None)"
| "decodeStrings AfterArray cur done (c # s) =
    (if isJSONSpace c then decodeStrings AfterArray cur done s else None)"

definition jsonDecodeStrings :: "string \<Rightarrow> string list option" where
  "jsonDecodeStrings text = decodeStrings BeforeArray [] [] text"

text \<open>\<^verbatim>\<open>utf8.ValidString\<close>: no byte of the string is read as U+FFFD of width one.\<close>

definition validUTF8 :: "string \<Rightarrow> bool" where
  "validUTF8 s \<longleftrightarrow> list_all (\<lambda>(r, bs). \<not> (r = RuneError \<and> length bs = 1)) (runes s)"

text \<open>
  The string with every byte that is not well-formed UTF-8 replaced by the three bytes of
  U+FFFD.
\<close>

definition coerced :: "string \<Rightarrow> string" where
  "coerced s =
    concat (map (\<lambda>(r, bs). if r = RuneError \<and> length bs = 1 then EncodeRune RuneError else bs)
              (runes s))"


text \<open>
  The ways \<^verbatim>\<open>utf8.DecodeRuneInString\<close> reads the start of a string: as a byte that is not
  well-formed, as an ASCII byte, or as a well-formed encoding of two, three or four bytes.
\<close>

datatype shape = Bad | One | Two char | Three char char | Four char char char

definition shaped :: "char \<Rightarrow> string \<Rightarrow> rune \<Rightarrow> nat \<Rightarrow> shape \<Rightarrow> bool" where
  "shaped c s r w sh =
    (case sh of
       Bad \<Rightarrow> r = RuneError \<and> w = 1
     | One \<Rightarrow> w = 1 \<and> r = of_char c \<and> r < 0x80
     | Two c1 \<Rightarrow>
         w = 2 \<and> (\<exists>s'. s = c1 # s')
         \<and> 0xC2 \<le> (of_char c :: nat) \<and> (of_char c :: nat) \<le> 0xDF \<and> cont c1
         \<and> r = (of_char c mod 32) * 64 + of_char c1 mod 64
     | Three c1 c2 \<Rightarrow>
         w = 3 \<and> (\<exists>s'. s = c1 # c2 # s')
         \<and> 0xE0 \<le> (of_char c :: nat) \<and> (of_char c :: nat) \<le> 0xEF
         \<and> accept_lo (of_char c) \<le> of_char c1 \<and> of_char c1 \<le> accept_hi (of_char c) \<and> cont c2
         \<and> r = (of_char c mod 16) * 4096 + (of_char c1 mod 64) * 64 + of_char c2 mod 64
     | Four c1 c2 c3 \<Rightarrow>
         w = 4 \<and> (\<exists>s'. s = c1 # c2 # c3 # s')
         \<and> 0xF0 \<le> (of_char c :: nat) \<and> (of_char c :: nat) \<le> 0xF4
         \<and> accept_lo (of_char c) \<le> of_char c1 \<and> of_char c1 \<le> accept_hi (of_char c)
         \<and> cont c2 \<and> cont c3
         \<and> r = (of_char c mod 8) * 262144 + (of_char c1 mod 64) * 4096
               + (of_char c2 mod 64) * 64 + of_char c3 mod 64)"


text \<open>An ASCII byte as the rune it is read as.\<close>

definition asciiRune :: "char \<Rightarrow> rune \<times> string" where
  "asciiRune c = (of_char c, [c])"


section \<open>Sample environments\<close>

text \<open>
  Concrete environments on which the theorems below are exercised. In \<open>offline\<close> no
  service can be reached. In \<open>online\<close> the health check succeeds, the search finds
  nothing and the batch endpoint answers every request with the same three results,
  whatever the number of icons in the request. In \<open>catalogue\<close> the search service knows
  one query, \<^verbatim>\<open>vpc\<close>, and reports two icons for it. In \<open>repeating\<close> no service can be
  reached and \<^verbatim>\<open>uuid.New\<close> returns the same identifier at every call.
\<close>

definition sample_uuid :: "nat \<Rightarrow> string" where
  "sample_uuid n = ''id-'' @ replicate n (CHR ''x'')"

definition unreachable :: "'a exchange" where
  "unreachable = \<lparr>marshalErr = False, requestErr = False, doResult = None\<rparr>"

definition answered :: "int \<Rightarrow> 'a option \<Rightarrow> 'a exchange" where
  "answered status body =
    \<lparr>marshalErr = False, requestErr = False, doResult = Some (status, body)\<rparr>"

definition offline :: env where
  "offline =
    \<lparr>unicode = latin1, health_reply = (\<lambda>h. unreachable), search_reply = (\<lambda>h. unreachable),
     batch_reply = (\<lambda>h. unreachable), classify_reply = (\<lambda>h. unreachable),
     uuid_New = sample_uuid\<rparr>"

definition vpcEnrichment :: LLMEnrichmentResponse where
  "vpcEnrichment =
    \<lparr>LLMEnrichmentResponse.Category = ''network'',
     LLMEnrichmentResponse.Aliases = [''virtual private cloud''],
     LLMEnrichmentResponse.TechnicalIntent = ''isolate'',
     LLMEnrichmentResponse.SemanticProfile = ''networking'',
     LLMEnrichmentResponse.Tags = [''net''], LLMEnrichmentResponse.ShapeType = ''image'',
     LLMEnrichmentResponse.IsContainer = True, LLMEnrichmentResponse.BrandColor = ''#ff9900''\<rparr>"

definition bucketEnrichment :: LLMEnrichmentResponse where
  "bucketEnrichment =
    \<lparr>LLMEnrichmentResponse.Category = ''storage'',
     LLMEnrichmentResponse.Aliases = [''bucket''],
     LLMEnrichmentResponse.TechnicalIntent = ''store'',
     LLMEnrichmentResponse.SemanticProfile = ''objects'',
     LLMEnrichmentResponse.Tags = [''s3''], LLMEnrichmentResponse.ShapeType = ''image'',
     LLMEnrichmentResponse.IsContainer = False, LLMEnrichmentResponse.BrandColor = ''#569a31''\<rparr>"

definition online :: env where
  "online =
    \<lparr>unicode = latin1, health_reply = (\<lambda>h. answered 200 (Some ())),
     search_reply = (\<lambda>h. unreachable),
     batch_reply =
       (\<lambda>h. answered 200
          (Some \<lparr>Results = [vpcEnrichment, bucketEnrichment, vpcEnrichment],
                 BatchClassifyResponse.Total = 3, ProcessingTimeMs = 0\<rparr>)),
     classify_reply = (\<lambda>h. unreachable),
     uuid_New = sample_uuid\<rparr>"

definition catalogue :: env where
  "catalogue =
    offline\<lparr>search_reply :=
      (\<lambda>h. if last h = SearchGet ''https://api.iconify.design/search?query=vpc&limit=3''
            then answered 200
                   (Some \<lparr>IconifySearchResult.Icons = [''mdi:vpc'', ''logos:aws-vpc''],
                          IconifySearchResult.Total = 2\<rparr>)
            else answered 200
                   (Some \<lparr>IconifySearchResult.Icons = [], IconifySearchResult.Total = 0\<rparr>))\<rparr>"


definition start :: world where
  "start = \<lparr>events = [], drawn = 0\<rparr>"

definition pendingIcon :: "string \<Rightarrow> string \<Rightarrow> PendingIcon" where
  "pendingIcon category title =
    \<lparr>PendingIcon.Category = category, PendingIcon.Title = title,
     Link = category @ ''%'' @ title, PendingIcon.DisplayName = cleanDisplayName latin1 title\<rparr>"

text \<open>Seven pending icons, two of them with the same provider and title.\<close>

definition samplePending :: "PendingIcon list" where
  "samplePending =
    [pendingIcon ''AWS'' ''vpc'', pendingIcon ''AWS'' ''s3'', pendingIcon ''AWS'' ''s3'',
     pendingIcon ''GCP'' ''gke'', pendingIcon ''DEV'' ''go'', pendingIcon ''AZURE'' ''vm'',
     pendingIcon ''TECH'' ''db'']"

definition emptyRun :: run where
  "emptyRun = \<lparr>world = start, allIcons = [], providerIcons = Map.empty\<rparr>"

definition batch_config :: config where
  "batch_config = \<lparr>useLLMEnrichment = True, useBatchProcessing = True\<rparr>"


section \<open>Slugs and the worked example\<close>

lemma class_codes:
  "map char_of ([97..<123] @ [48..<58] @ [45::nat]) = ''abcdefghijklmnopqrstuvwxyz0123456789-''"
  by code_simp

lemma inClass_chars: "inClass c \<Longrightarrow> c \<in> set ''abcdefghijklmnopqrstuvwxyz0123456789-''"
proof -
  assume a: "inClass c"
  have s: "set ([97..<123] @ [48..<58] @ [45::nat]) = {97..<123} \<union> {48..<58} \<union> {45}"
    by (simp only: set_append set_upt list.set Un_assoc)
  from a have "(of_char c :: nat) \<in> {97..<123} \<union> {48..<58} \<union> {45}"
    by (auto simp: inClass_def less_eq_char_def)
  then have "(of_char c :: nat) \<in> set ([97..<123] @ [48..<58] @ [45])"
    by (simp only: s)
  then have "char_of (of_char c :: nat) \<in> char_of ` set ([97..<123] @ [48..<58] @ [45::nat])"
    by (rule imageI)
  then have "char_of (of_char c :: nat) \<in> set (map char_of ([97..<123] @ [48..<58] @ [45::nat]))"
    by (simp only: set_map)
  then show ?thesis by (simp only: class_codes char_of_char)
qed

lemma example_displayName: "cleanDisplayName U ''ec2_instance'' = ''Ec2 Instance''"
  by code_simp

lemma example_slug: "generateSlug U ''AWS'' ''ec2_instance'' = ''aws-ec2instance''"
  by code_simp

lemma example_popularity: "calculatePopularity U ''ec2_instance'' = 1"
  by code_simp

lemma example_provider: "getFullProviderName U ''AWS'' = ''Amazon Web Services''"
  by code_simp

lemma default_width_other:
  "category \<notin> {''network'', ''container'', ''storage'', ''database''}
    \<Longrightarrow> determineDefaultWidth category = 64"
  by (simp add: determineDefaultWidth_def)

text \<open>
  C1, as the source has it. For the title \<^verbatim>\<open>ec2_instance\<close> of provider \<^verbatim>\<open>AWS\<close> the display
  name is \<^verbatim>\<open>Ec2 Instance\<close>, the popularity 1.0, the full provider name
  \<^verbatim>\<open>Amazon Web Services\<close> and the default width 64 when the category of the enrichment is
  none of network, container, storage, database; the slug is \<^verbatim>\<open>aws-ec2instance\<close>, since
  \<^verbatim>\<open>generateSlug\<close> turns only spaces into hyphens and drops the underscore with every other
  byte outside \<^verbatim>\<open>[a-z0-9-]\<close>. The payload built by \<^verbatim>\<open>createIconPayload\<close> carries these
  values, whatever the services answer.
\<close>

theorem ec2_instance_example:
  "cleanDisplayName (unicode E) ''ec2_instance'' = ''Ec2 Instance''
   \<and> generateSlug (unicode E) ''AWS'' ''ec2_instance'' = ''aws-ec2instance''
   \<and> calculatePopularity (unicode E) ''ec2_instance'' = 1
   \<and> getFullProviderName (unicode E) ''AWS'' = ''Amazon Web Services''
   \<and> (LLMEnrichmentResponse.Category enrichment
         \<notin> {''network'', ''container'', ''storage'', ''database''}
       \<longrightarrow> determineDefaultWidth (LLMEnrichmentResponse.Category enrichment) = 64
           \<and> (let payload =
                     fst (createIconPayload E w ''AWS'' ''ec2_instance'' link
                            (cleanDisplayName (unicode E) ''ec2_instance'') enrichment timestamp)
                in DisplayName payload = ''Ec2 Instance''
                   \<and> Slug payload = ''aws-ec2instance''
                   \<and> Popularity payload = 1
                   \<and> Provider payload = ''Amazon Web Services''
                   \<and> DefaultWidth payload = 64))"
proof -
  have "LLMEnrichmentResponse.Category enrichment
          \<notin> {''network'', ''container'', ''storage'', ''database''}
        \<Longrightarrow> (let payload =
                     fst (createIconPayload E w ''AWS'' ''ec2_instance'' link
                            (cleanDisplayName (unicode E) ''ec2_instance'') enrichment timestamp)
                in DisplayName payload = ''Ec2 Instance''
                   \<and> Slug payload = ''aws-ec2instance''
                   \<and> Popularity payload = 1
                   \<and> Provider payload = ''Amazon Web Services''
                   \<and> DefaultWidth payload = 64)"
    using default_width_other [of "LLMEnrichmentResponse.Category enrichment"]
    by (simp only: createIconPayload_def Let_def example_displayName example_slug
          example_popularity example_provider split: prod.splits)
       (simp del: insert_iff)
  then show ?thesis
    using default_width_other [of "LLMEnrichmentResponse.Category enrichment"]
    by (simp only: example_displayName example_slug example_popularity example_provider)
       blast
qed

theorem ec2_instance_example_witness:
  "LLMEnrichmentResponse.Category zeroEnrichment
     \<notin> {''network'', ''container'', ''storage'', ''database''}
   \<and> Slug (fst (createIconPayload offline start ''AWS'' ''ec2_instance'' ''aws%ec2_instance''
                  (cleanDisplayName (unicode offline) ''ec2_instance'') zeroEnrichment
                  ''2026-01-01T00:00:00Z'')) = ''aws-ec2instance''
   \<and> DefaultWidth (fst (createIconPayload offline start ''AWS'' ''ec2_instance''
                  ''aws%ec2_instance'' (cleanDisplayName (unicode offline) ''ec2_instance'')
                  zeroEnrichment ''2026-01-01T00:00:00Z'')) = 64"
proof -
  have c: "LLMEnrichmentResponse.Category zeroEnrichment
             \<notin> {''network'', ''container'', ''storage'', ''database''}"
    by (simp add: zeroEnrichment_def)
  show ?thesis
    using c ec2_instance_example [of offline zeroEnrichment start "''aws%ec2_instance''"
        "''2026-01-01T00:00:00Z''", unfolded Let_def]
    by blast
qed

text \<open>
  The slug of the example is not the \<^verbatim>\<open>aws-ec2-instance\<close> of C1 as it was stated.
\<close>

theorem ec2_instance_slug_counterexample:
  "generateSlug latin1 ''AWS'' ''ec2_instance'' \<noteq> ''aws-ec2-instance''"
  by code_simp

text \<open>
  C6. \<^verbatim>\<open>generateSlug\<close> is a function of the provider and the title alone (it reads no
  state and consults no service), so equal arguments give equal slugs; the slug is the
  lower-cased provider, a hyphen, and a rest made of lower-case ASCII letters, digits and
  hyphens only.
\<close>

theorem generateSlug_deterministic_charset:
  "(provider' = provider \<and> title' = title
      \<longrightarrow> generateSlug U provider' title' = generateSlug U provider title)
   \<and> generateSlug U provider title =
       ToLower U provider @ ''-''
         @ drop (length (ToLower U provider) + 1) (generateSlug U provider title)
   \<and> set (drop (length (ToLower U provider) + 1) (generateSlug U provider title))
       \<subseteq> set ''abcdefghijklmnopqrstuvwxyz0123456789-''"
proof -
  let ?clean = "stripOutsideClass (ToLower U (ReplaceAll title '' '' ''-''))"
  have g: "generateSlug U provider title = ToLower U provider @ ''-'' @ ?clean"
    by (simp add: generateSlug_def Let_def)
  have d: "drop (length (ToLower U provider) + 1) (generateSlug U provider title) = ?clean"
    by (simp add: g)
  have "set ?clean \<subseteq> set ''abcdefghijklmnopqrstuvwxyz0123456789-''"
    unfolding stripOutsideClass_def using inClass_chars by (auto simp del: list.set)
  with g d show ?thesis by (simp only:) blast
qed

theorem generateSlug_deterministic_charset_witness:
  "generateSlug latin1 ''Aws'' ''EC2 (Elastic) Compute_Cloud'' = ''aws-ec2-elastic-computecloud''
   \<and> set (drop (length (ToLower latin1 ''Aws'') + 1)
             (generateSlug latin1 ''Aws'' ''EC2 (Elastic) Compute_Cloud''))
       \<subseteq> set ''abcdefghijklmnopqrstuvwxyz0123456789-''"
proof -
  have v: "generateSlug latin1 ''Aws'' ''EC2 (Elastic) Compute_Cloud''
             = ''aws-ec2-elastic-computecloud''"
    by code_simp
  show ?thesis
    using v generateSlug_deterministic_charset
      [of "''Aws''" "''Aws''" "''EC2 (Elastic) Compute_Cloud''" "''EC2 (Elastic) Compute_Cloud''"
        latin1]
    by blast
qed


section \<open>The icon search\<close>

lemma chars_inClass: "c \<in> set ''abcdefghijklmnopqrstuvwxyz0123456789-'' \<Longrightarrow> inClass c"
  by (auto simp: inClass_def)

lemma inClass_iff: "inClass c \<longleftrightarrow> c \<in> set ''abcdefghijklmnopqrstuvwxyz0123456789-''"
  using inClass_chars chars_inClass by blast

lemma stripOutsideClass_filter:
  "stripOutsideClass s = filter (\<lambda>c. c \<in> set ''abcdefghijklmnopqrstuvwxyz0123456789-'') s"
  unfolding stripOutsideClass_def by (rule filter_cong) (simp_all only: inClass_iff)

lemma replace_from_single:
  "replace_from 0 s [a] [b] = map (\<lambda>c. if c = a then b else c) s"
  by (induction s) simp_all

lemma ReplaceAll_single: "ReplaceAll s [a] [b] = map (\<lambda>c. if c = a then b else c) s"
  by (simp add: ReplaceAll_def replace_from_single)

lemma titleClean_sanitized:
  "stripOutsideClass (ToLower U (ReplaceAll title '' '' ''-'')) = sanitized U title"
  by (simp only: ReplaceAll_single stripOutsideClass_filter sanitized_def)

lemma searchQueries_step:
  "searchQueries E (query # rest) w =
    (let w' = w\<lparr>events := events w @ [SearchGet (searchURL query)]\<rparr>
     in case firstHit (search_reply E (events w')) of
          Some found \<Rightarrow> (Some found, w')
        | None \<Rightarrow> searchQueries E rest w')"
  by (auto simp: Let_def firstHit_def neq_Nil_conv split: option.splits list.splits)

lemma searchURL_request: "searchURL query = searchRequest query"
  by (simp add: searchURL_def searchRequest_def)

text \<open>
  C5. \<^verbatim>\<open>verifyIconifyID\<close> asks the search service the three queries "provider title",
  "title" and "slug" in that order, each as \<^verbatim>\<open>GET /search?query=<q>&limit=3\<close>, stops at
  the first answer that reports a total above 0 and a list of icons that is not empty, and
  returns the first icon of that list; when none of the three does (the exchange failed,
  the body did not decode, or it reported no hit), it returns \<^verbatim>\<open>logos:\<close> followed by the
  lower-cased provider, a hyphen and the sanitized title.
\<close>

theorem verifyIconifyID_as_stated:
  "verifyIconifyID E w provider title slug = verify_in_words E w provider title slug"
  unfolding verifyIconifyID_def verify_in_words_def
  by (simp only: searchQueries_step searchQueries.simps(1) titleClean_sanitized Let_def
        searchURL_request split: option.splits prod.splits)
     (simp split: option.splits)

text \<open>
  Two runs of it. With no service in reach all three requests are sent and the identifier
  is synthesized; with a service that knows the query \<^verbatim>\<open>vpc\<close> the second request is
  the last, and the first of the icons reported is returned.
\<close>

theorem verifyIconifyID_as_stated_witness:
  "verifyIconifyID offline start ''AWS'' ''Ec2 Instance'' ''aws-ec2-instance''
     = (''logos:aws-ec2-instance'',
        \<lparr>events =
           [SearchGet ''https://api.iconify.design/search?query=AWS Ec2 Instance&limit=3'',
            SearchGet ''https://api.iconify.design/search?query=Ec2 Instance&limit=3'',
            SearchGet ''https://api.iconify.design/search?query=aws-ec2-instance&limit=3''],
         drawn = 0\<rparr>)
   \<and> verifyIconifyID catalogue start ''AWS'' ''vpc'' ''aws-vpc''
       = (''mdi:vpc'',
          \<lparr>events =
             [SearchGet ''https://api.iconify.design/search?query=AWS vpc&limit=3'',
              SearchGet ''https://api.iconify.design/search?query=vpc&limit=3''],
           drawn = 0\<rparr>)"
  by (simp only: verifyIconifyID_as_stated) code_simp


section \<open>What one payload changes\<close>

lemma searchQueries_world:
  "searchQueries E qs w = (r, w') \<Longrightarrow>
     drawn w' = drawn w \<and> (\<exists>urls. events w' = events w @ map SearchGet urls)"
proof (induction qs arbitrary: w)
  case Nil
  then show ?case by (auto intro: exI [of _ "[]"])
next
  case (Cons q qs)
  let ?w = "w\<lparr>events := events w @ [SearchGet (searchURL q)]\<rparr>"
  from Cons.prems have "(\<exists>found. (r, w') = (Some found, ?w)) \<or> searchQueries E qs ?w = (r, w')"
    by (auto simp: Let_def split: if_splits option.splits prod.splits)
  then show ?case
  proof
    assume "\<exists>found. (r, w') = (Some found, ?w)"
    then show ?thesis by (auto intro: exI [of _ "[searchURL q]"])
  next
    assume "searchQueries E qs ?w = (r, w')"
    from Cons.IH [OF this] obtain urls
      where "drawn w' = drawn w" "events w' = events w @ map SearchGet (searchURL q # urls)"
      by auto
    then show ?thesis by blast
  qed
qed

lemma batchPosts_append: "batchPosts (es @ fs) = batchPosts es @ batchPosts fs"
  by (simp add: batchPosts_def)

lemma batchPosts_searches: "batchPosts (map SearchGet urls) = []"
  by (induction urls) (simp_all add: batchPosts_def)

lemma verifyIconifyID_world:
  "verifyIconifyID E w provider title slug = (found, w') \<Longrightarrow>
     drawn w' = drawn w \<and> batchPosts (events w') = batchPosts (events w)"
proof -
  assume a: "verifyIconifyID E w provider title slug = (found, w')"
  obtain r w1 where sq: "searchQueries E [provider @ '' '' @ title, title, slug] w = (r, w1)"
    by (cases "searchQueries E [provider @ '' '' @ title, title, slug] w")
  from a have "w' = w1"
    unfolding verifyIconifyID_def Let_def sq by (auto split: option.splits)
  with searchQueries_world [OF sq] show ?thesis
    by (auto simp: batchPosts_append batchPosts_searches)
qed

lemma createIconPayload_world:
  "createIconPayload E w provider title link displayName enrichment timestamp = (payload, w')
    \<Longrightarrow> drawn w' = Suc (drawn w) \<and> batchPosts (events w') = batchPosts (events w)
        \<and> ID payload = uuid_New E (drawn w)
        \<and> Slug payload = generateSlug (unicode E) provider title"
proof -
  assume a: "createIconPayload E w provider title link displayName enrichment timestamp = (payload, w')"
  obtain found w1 where v: "verifyIconifyID E w provider title (generateSlug (unicode E) provider title) = (found, w1)"
    by (cases "verifyIconifyID E w provider title (generateSlug (unicode E) provider title)")
  from verifyIconifyID_world [OF v] a v show ?thesis
    by (auto simp: createIconPayload_def Let_def)
qed

lemma createIconPayload_fields:
  "createIconPayload E w provider title link displayName enrichment timestamp = (payload, w')
    \<Longrightarrow> Aliases payload = arrayToJSON (LLMEnrichmentResponse.Aliases enrichment)
        \<and> Tags payload = arrayToJSON (LLMEnrichmentResponse.Tags enrichment)
        \<and> SemanticProfile payload = LLMEnrichmentResponse.SemanticProfile enrichment
        \<and> TechnicalIntent payload = LLMEnrichmentResponse.TechnicalIntent enrichment
        \<and> IsContainer payload = LLMEnrichmentResponse.IsContainer enrichment
        \<and> IconPosition payload
            = (if LLMEnrichmentResponse.IsContainer enrichment then ''top-left'' else ''center'')"
  by (auto simp: createIconPayload_def Let_def split: prod.splits)

lemma addIcon_allIcons:
  "allIcons (addIcon E timestamp pending enrichment st) =
     allIcons st @ [fst (createIconPayload E (world st) (PendingIcon.Category pending)
        (PendingIcon.Title pending) (Link pending) (PendingIcon.DisplayName pending)
        enrichment timestamp)]"
  by (simp add: addIcon_def Let_def split: prod.splits)

lemma addIcon_world:
  "world (addIcon E timestamp pending enrichment st) =
     snd (createIconPayload E (world st) (PendingIcon.Category pending)
        (PendingIcon.Title pending) (Link pending) (PendingIcon.DisplayName pending)
        enrichment timestamp)"
  by (simp add: addIcon_def Let_def split: prod.splits)

lemma addIcon_batchPosts:
  "batchPosts (events (world (addIcon E timestamp pending enrichment st)))
     = batchPosts (events (world st))"
  using createIconPayload_world [OF surjective_pairing]
  by (simp only: addIcon_world)

lemma verifyIconifyID_events:
  "\<exists>ext. events (snd (verifyIconifyID E w provider title slug)) = events w @ ext"
proof -
  obtain r w1 where sq: "searchQueries E [provider @ '' '' @ title, title, slug] w = (r, w1)"
    by (cases "searchQueries E [provider @ '' '' @ title, title, slug] w")
  have "snd (verifyIconifyID E w provider title slug) = w1"
    unfolding verifyIconifyID_def Let_def sq by (auto split: option.splits)
  with searchQueries_world [OF sq] show ?thesis by auto
qed

lemma addIcon_events:
  "\<exists>ext. events (world (addIcon E timestamp pending enrichment st)) = events (world st) @ ext"
  using verifyIconifyID_events [of E "world st" "PendingIcon.Category pending"
      "PendingIcon.Title pending"
      "generateSlug (unicode E) (PendingIcon.Category pending) (PendingIcon.Title pending)"]
  by (simp add: addIcon_world createIconPayload_def Let_def split_def)

lemma extends_refl: "drawn (world st') = drawn (world st) \<Longrightarrow> allIcons st' = allIcons st
   \<Longrightarrow> extends E [] st st'"
  by (simp add: extends_def)

lemma extends_trans:
  assumes "extends E ps st st1" and "extends E qs st1 st2"
  shows "extends E (ps @ qs) st st2"
proof -
  from assms(1) [unfolded extends_def] obtain new1 where 1: "allIcons st1 = allIcons st @ new1" "length new1 = length ps"
     "map ID new1 = map (uuid_New E) [drawn (world st)..<drawn (world st) + length ps]"
     "map Slug new1 = map (\<lambda>p. generateSlug (unicode E) (PendingIcon.Category p) (PendingIcon.Title p)) ps"
     "drawn (world st1) = drawn (world st) + length ps"
    by (elim exE conjE)
  from assms(2) [unfolded extends_def] obtain new2 where 2: "allIcons st2 = allIcons st1 @ new2" "length new2 = length qs"
     "map ID new2 = map (uuid_New E) [drawn (world st1)..<drawn (world st1) + length qs]"
     "map Slug new2 = map (\<lambda>p. generateSlug (unicode E) (PendingIcon.Category p) (PendingIcon.Title p)) qs"
     "drawn (world st2) = drawn (world st1) + length qs"
    by (elim exE conjE)
  have u: "[drawn (world st)..<drawn (world st) + length (ps @ qs)]
      = [drawn (world st)..<drawn (world st) + length ps]
        @ [drawn (world st) + length ps..<drawn (world st) + length ps + length qs]"
  proof -
    have "[drawn (world st)..<(drawn (world st) + length ps) + length qs]
        = [drawn (world st)..<drawn (world st) + length ps]
          @ [drawn (world st) + length ps..<drawn (world st) + length ps + length qs]"
      by (rule upt_add_eq_append) simp
    then show ?thesis by (simp only: length_append add.assoc)
  qed
  have a: "allIcons st2 = allIcons st @ (new1 @ new2)"
    by (simp add: 1(1) 2(1))
  have b: "length (new1 @ new2) = length (ps @ qs)"
    by (simp add: 1(2) 2(2))
  have c: "map ID (new1 @ new2) = map (uuid_New E) [drawn (world st)..<drawn (world st) + length (ps @ qs)]"
    by (simp only: u map_append 1(3) 2(3) 1(5))
  have d: "map Slug (new1 @ new2)
      = map (\<lambda>p. generateSlug (unicode E) (PendingIcon.Category p) (PendingIcon.Title p)) (ps @ qs)"
    by (simp only: map_append 1(4) 2(4))
  have e: "drawn (world st2) = drawn (world st) + length (ps @ qs)"
    by (simp add: 1(5) 2(5))
  show ?thesis
    unfolding extends_def
    by (rule exI [of _ "new1 @ new2"]) (intro conjI a b c d e)
qed

lemma addIcon_extends: "extends E [pending] st (addIcon E timestamp pending enrichment st)"
  unfolding extends_def
  using createIconPayload_world [OF surjective_pairing,
      of E "world st" "PendingIcon.Category pending" "PendingIcon.Title pending" "Link pending"
         "PendingIcon.DisplayName pending" enrichment timestamp]
  by (simp add: addIcon_allIcons addIcon_world)


section \<open>The loops\<close>

lemma batchPayloads_fold:
  "batchPayloads E timestamp enrichments j batch st =
     Inr (foldl (\<lambda>s x. addIcon E timestamp (fst x) (enrichmentAt enrichments (snd x)) s) st
            (zip batch [j..<j + length batch]))"
proof (induction batch arbitrary: j st)
  case Nil
  show ?case by simp
next
  case (Cons pending rest)
  have z: "zip (pending # rest) [j..<j + length (pending # rest)]
             = (pending, j) # zip rest [Suc j..<Suc j + length rest]"
  proof -
    have "[j..<j + Suc (length rest)] = j # [Suc j..<j + Suc (length rest)]"
      by (rule upt_conv_Cons) simp
    then have "[j..<j + length (pending # rest)] = j # [Suc j..<Suc j + length rest]"
      by (simp only: list.size add_Suc_right add_Suc add_0_right length_Cons)
    then show ?thesis by (simp only: zip_Cons_Cons)
  qed
  have e: "(if j < length enrichments then index enrichments j else Inr zeroEnrichment)
             = Inr (enrichmentAt enrichments j)"
    by (simp add: index_def enrichmentAt_def)
  show ?case
    by (simp only: batchPayloads.simps e z sum.case Cons.IH foldl_Cons fst_conv snd_conv)
qed

lemma fold_extends:
  "extends E (map g xs) st (foldl (\<lambda>s x. addIcon E timestamp (g x) (f x) s) st xs)"
proof (induction xs arbitrary: st)
  case Nil
  show ?case by (simp add: extends_refl)
next
  case (Cons x xs)
  have "extends E ([g x] @ map g xs) st
          (foldl (\<lambda>s x. addIcon E timestamp (g x) (f x) s) (addIcon E timestamp (g x) (f x) st) xs)"
    by (rule extends_trans [OF addIcon_extends Cons.IH])
  then show ?case by simp
qed

lemma fold_batchPosts:
  "batchPosts (events (world (foldl (\<lambda>s x. addIcon E timestamp (g x) (f x) s) st xs)))
     = batchPosts (events (world st))"
  by (induction xs arbitrary: st) (simp_all add: addIcon_batchPosts)

lemma fold_events:
  "\<exists>ext. events (world (foldl (\<lambda>s x. addIcon E timestamp (g x) (f x) s) st xs))
     = events (world st) @ ext"
proof (induction xs arbitrary: st)
  case Nil
  show ?case by simp
next
  case (Cons x xs)
  from Cons.IH [of "addIcon E timestamp (g x) (f x) st"] obtain ext2 where
    2: "events (world (foldl (\<lambda>s x. addIcon E timestamp (g x) (f x) s)
                         (addIcon E timestamp (g x) (f x) st) xs))
          = events (world (addIcon E timestamp (g x) (f x) st)) @ ext2"
    by blast
  from addIcon_events [of E timestamp "g x" "f x" st] obtain ext1 where
    1: "events (world (addIcon E timestamp (g x) (f x) st)) = events (world st) @ ext1"
    by blast
  show ?case
    by (rule exI [of _ "ext1 @ ext2"]) (simp only: foldl_Cons 2 1 append_assoc)
qed

lemma addIcon_assembled:
  "assembledFrom (last (allIcons (addIcon E timestamp pending enrichment st))) pending enrichment"
  by (simp add: addIcon_allIcons assembledFrom_def createIconPayload_def Let_def
        split: prod.splits)

lemma fold_assembled:
  "j < length xs \<Longrightarrow>
     assembledFrom
       (allIcons (foldl (\<lambda>s x. addIcon E timestamp (g x) (f x) s) st xs)
          ! (length (allIcons st) + j))
       (g (xs ! j)) (f (xs ! j))"
proof (induction xs arbitrary: st j)
  case Nil
  then show ?case by simp
next
  case (Cons x xs)
  let ?st1 = "addIcon E timestamp (g x) (f x) st"
  let ?fin = "foldl (\<lambda>s x. addIcon E timestamp (g x) (f x) s) ?st1 xs"
  have l1: "length (allIcons ?st1) = Suc (length (allIcons st))"
    by (simp add: addIcon_allIcons)
  from fold_extends [of E g xs ?st1 timestamp f]
  obtain new where new: "allIcons ?fin = allIcons ?st1 @ new"
    unfolding extends_def by blast
  show ?case
  proof (cases j)
    case 0
    have "allIcons ?fin ! length (allIcons st) = last (allIcons ?st1)"
      by (simp add: new nth_append l1 addIcon_allIcons)
    with addIcon_assembled [of E timestamp "g x" "f x" st] show ?thesis
      by (simp add: 0)
  next
    case (Suc j')
    with Cons.prems have "j' < length xs" by simp
    from Cons.IH [OF this, of ?st1] show ?thesis
      by (simp add: Suc l1)
  qed
qed

lemma batchEnrichIcons_world:
  "snd (batchEnrichIcons E w pending)
     = w\<lparr>events := events w @ [BatchPost (batchInputOf pending)]\<rparr>"
  by (simp add: batchEnrichIcons_def Let_def split: option.splits prod.splits)

lemma batchPayloads_length_zip:
  "map fst (zip batch [j..<j + length batch]) = batch"
  by (simp add: map_fst_zip)

lemma batchLoop_done:
  "\<not> i < length pendingIcons \<Longrightarrow> batchLoop E timestamp pendingIcons i st = Inr st"
  by (subst batchLoop.simps) simp

lemma slice_batch:
  assumes "i < length xs"
  shows "slice xs i (if i + batchSize > length xs then length xs else i + batchSize)
           = Inr (take batchSize (drop i xs))"
  using assms by (auto simp: slice_def)

lemma batchLoop_step:
  assumes "i < length pendingIcons"
  shows "batchLoop E timestamp pendingIcons i st =
     batchLoop E timestamp pendingIcons (i + batchSize)
       (foldl (\<lambda>s x. addIcon E timestamp (fst x)
                  (enrichmentAt (fst (batchEnrichIcons E (world st)
                      (take batchSize (drop i pendingIcons)))) (snd x)) s)
          (st\<lparr>world := snd (batchEnrichIcons E (world st)
                      (take batchSize (drop i pendingIcons)))\<rparr>)
          (zip (take batchSize (drop i pendingIcons))
               [0..<0 + length (take batchSize (drop i pendingIcons))]))"
  by (subst batchLoop.simps)
     (simp only: assms if_True Let_def slice_batch [OF assms] sum.case batchPayloads_fold
        split_def)

lemma count_step:
  assumes "0 < (n::nat)"
  shows "(n + 5 - 1) div 5 = Suc ((n - 5 + 5 - 1) div 5)"
proof -
  obtain m where m: "n = Suc m" using assms by (cases n) auto
  have 1: "(Suc m + 5 - 1) div 5 = Suc (m div 5)" by simp
  have 2: "(Suc m - 5 + 5 - 1) div 5 = m div 5"
  proof (cases "4 \<le> m")
    case True
    then have "Suc m - 5 + 5 - 1 = m" by simp
    then show ?thesis by simp
  next
    case False
    then have "Suc m - 5 = 0" "m div 5 = 0" by simp_all
    then show ?thesis by simp
  qed
  show ?thesis by (simp only: m 1 2)
qed

lemma count_bounds:
  fixes n :: nat
  shows "5 * ((n + 5 - 1) div 5) \<le> n + 4" and "n < 5 * ((n + 5 - 1) div 5) + 1"
proof -
  have "5 * ((n + 4) div 5) + (n + 4) mod 5 = n + 4" by simp
  moreover have "(n + 4) mod 5 < 5" by simp
  ultimately show "5 * ((n + 5 - 1) div 5) \<le> n + 4" and "n < 5 * ((n + 5 - 1) div 5) + 1"
    by simp_all
qed

lemma count_less:
  fixes n k :: nat
  assumes "k < (n + 5 - 1) div 5"
  shows "k * 5 < n"
proof -
  from assms have "Suc k \<le> (n + 5 - 1) div 5" by simp
  then have "5 * k + 5 \<le> 5 * ((n + 5 - 1) div 5)" by simp
  with count_bounds(1) [of n] have "5 * k + 5 \<le> n + 4" by linarith
  then show ?thesis by (simp add: mult.commute)
qed

lemma count_Suc_less:
  fixes n k :: nat
  assumes "Suc k < (n + 5 - 1) div 5"
  shows "5 \<le> n - k * 5"
proof -
  from assms have "Suc (Suc k) \<le> (n + 5 - 1) div 5" by simp
  then have "5 * k + 10 \<le> 5 * ((n + 5 - 1) div 5)" by simp
  with count_bounds(1) [of n] have "5 * k + 10 \<le> n + 4" by linarith
  then show ?thesis by (simp add: mult.commute)
qed

lemma count_ceiling: "int ((n + 5 - 1) div 5) = \<lceil>real n / 5\<rceil>"
proof (rule sym, rule ceiling_unique)
  let ?q = "(n + 5 - 1) div 5"
  from count_bounds(1) [of n] have "real (5 * ?q) \<le> real (n + 4)"
    by (simp only: of_nat_le_iff)
  then show "of_int (int ?q) - 1 < real n / 5"
    by simp
  from count_bounds(2) [of n] have "n \<le> 5 * ?q" by simp
  then have "real n \<le> real (5 * ?q)" by (simp only: of_nat_le_iff)
  then show "real n / 5 \<le> of_int (int ?q)"
    by simp
qed

lemma chunks_Nil: "chunks batchSize [] = []"
  by (simp add: chunks_def batchSize_def)

lemma chunks_step:
  assumes "xs \<noteq> []"
  shows "chunks batchSize xs = take batchSize xs # chunks batchSize (drop batchSize xs)"
proof -
  from assms have n: "0 < length xs" by simp
  have c: "(length xs + 5 - 1) div 5 = Suc ((length xs - 5 + 5 - 1) div 5)"
    by (rule count_step [OF n])
  have "map (chunk 5 xs) [0..<Suc ((length xs - 5 + 5 - 1) div 5)]
      = chunk 5 xs 0 # map (chunk 5 xs \<circ> Suc) [0..<(length xs - 5 + 5 - 1) div 5]"
    by (simp only: map_upt_Suc comp_def)
  moreover have "chunk 5 xs \<circ> Suc = chunk 5 (drop 5 xs)"
    by (rule ext) (simp add: chunk_def add.commute)
  moreover have "chunk 5 xs 0 = take 5 xs"
    by (simp add: chunk_def)
  ultimately show ?thesis
    by (simp only: chunks_def batchSize_def c length_drop)
qed

lemma concat_chunks: "concat (chunks batchSize xs) = xs"
proof (induction "length xs" arbitrary: xs rule: less_induct)
  case less
  show ?case
  proof (cases "xs = []")
    case True
    then show ?thesis by (simp add: chunks_Nil)
  next
    case False
    then have "length (drop batchSize xs) < length xs"
      by (simp add: batchSize_def)
    from less [OF this] show ?thesis
      by (simp only: chunks_step [OF False] concat.simps append_take_drop_id)
  qed
qed

lemma chunks_sizes:
  assumes "k < length (chunks batchSize xs)"
  shows "chunks batchSize xs ! k = take batchSize (drop (k * batchSize) xs)"
    and "0 < length (chunks batchSize xs ! k)"
    and "length (chunks batchSize xs ! k) \<le> batchSize"
    and "Suc k < length (chunks batchSize xs) \<Longrightarrow> length (chunks batchSize xs ! k) = batchSize"
proof -
  from assms have k: "k < (length xs + 5 - 1) div 5"
    by (simp add: chunks_def batchSize_def)
  then have n: "chunks 5 xs ! k = take 5 (drop (k * 5) xs)"
    by (simp add: chunks_def chunk_def)
  then show "chunks batchSize xs ! k = take batchSize (drop (k * batchSize) xs)"
    by (simp only: batchSize_def)
  have l: "length (chunks 5 xs ! k) = min 5 (length xs - k * 5)"
    by (simp only: n) (simp add: min.commute)
  from count_less [OF k] show "0 < length (chunks batchSize xs ! k)"
    by (simp add: batchSize_def l)
  show "length (chunks batchSize xs ! k) \<le> batchSize"
    by (simp only: batchSize_def l min.cobounded1)
  assume "Suc k < length (chunks batchSize xs)"
  then have "Suc k < (length xs + 5 - 1) div 5"
    by (simp add: chunks_def batchSize_def)
  from count_Suc_less [OF this] show "length (chunks batchSize xs ! k) = batchSize"
    by (simp add: batchSize_def l)
qed

lemma length_chunks_ceiling:
  "int (length (chunks batchSize xs)) = \<lceil>real (length xs) / real batchSize\<rceil>"
  using count_ceiling [of "length xs"] by (simp add: chunks_def batchSize_def)

lemma batchLoop_runs:
  "\<exists>st'. batchLoop E timestamp pendingIcons i st = Inr st'
      \<and> extends E (drop i pendingIcons) st st'
      \<and> batchPosts (events (world st'))
          = batchPosts (events (world st))
            @ map batchInputOf (chunks batchSize (drop i pendingIcons))"
proof (induction "length pendingIcons - i" arbitrary: i st rule: less_induct)
  case less
  show ?case
  proof (cases "i < length pendingIcons")
    case False
    then have d: "drop i pendingIcons = []" by simp
    show ?thesis
      by (simp add: batchLoop_done [OF False] d chunks_Nil extends_refl)
  next
    case True
    let ?batch = "take batchSize (drop i pendingIcons)"
    let ?w = "snd (batchEnrichIcons E (world st) ?batch)"
    let ?es = "fst (batchEnrichIcons E (world st) ?batch)"
    let ?st0 = "st\<lparr>world := ?w\<rparr>"
    let ?st1 = "foldl (\<lambda>s x. addIcon E timestamp (fst x) (enrichmentAt ?es (snd x)) s) ?st0
                  (zip ?batch [0..<0 + length ?batch])"
    have m: "length pendingIcons - (i + batchSize) < length pendingIcons - i"
      using True by (simp add: batchSize_def)
    from less [OF m, of ?st1] obtain st' where
      r: "batchLoop E timestamp pendingIcons (i + batchSize) ?st1 = Inr st'"
      and x: "extends E (drop (i + batchSize) pendingIcons) ?st1 st'"
      and b: "batchPosts (events (world st')) = batchPosts (events (world ?st1))
                @ map batchInputOf (chunks batchSize (drop (i + batchSize) pendingIcons))"
      by blast
    have ne: "drop i pendingIcons \<noteq> []" using True by simp
    have dd: "drop (i + batchSize) pendingIcons = drop batchSize (drop i pendingIcons)"
      by (simp add: add.commute)
    have x0: "extends E [] st ?st0"
      by (rule extends_refl) (simp_all add: batchEnrichIcons_world)
    have "extends E (map fst (zip ?batch [0..<0 + length ?batch])) ?st0 ?st1"
      by (rule fold_extends [of E fst _ _ timestamp "\<lambda>x. enrichmentAt ?es (snd x)"])
    then have x1: "extends E ?batch ?st0 ?st1"
      by (simp only: batchPayloads_length_zip)
    have "extends E (([] @ ?batch) @ drop (i + batchSize) pendingIcons) st st'"
      by (rule extends_trans [OF extends_trans [OF x0 x1] x])
    then have X: "extends E (drop i pendingIcons) st st'"
      by (simp only: dd append_Nil append_take_drop_id)
    have "batchPosts (events (world ?st1)) = batchPosts (events (world ?st0))"
      by (rule fold_batchPosts [of E timestamp fst "\<lambda>x. enrichmentAt ?es (snd x)"])
    also have "\<dots> = batchPosts (events (world st)) @ [batchInputOf ?batch]"
      by (simp add: batchEnrichIcons_world batchPosts_append) (simp add: batchPosts_def)
    finally have B: "batchPosts (events (world st'))
        = batchPosts (events (world st)) @ map batchInputOf (chunks batchSize (drop i pendingIcons))"
      by (simp only: b chunks_step [OF ne] dd list.map append_assoc append_Cons append_Nil)
    from r have "batchLoop E timestamp pendingIcons i st = Inr st'"
      by (simp only: batchLoop_step [OF True])
    with X B show ?thesis by blast
  qed
qed

lemma batchLoop_positions:
  "\<exists>st'. batchLoop E timestamp pendingIcons i st = Inr st'
     \<and> (\<exists>ext. events (world st') = events (world st) @ ext)
     \<and> (\<exists>new. allIcons st' = allIcons st @ new)
     \<and> (\<forall>k j. j < 5 \<and> i + k * 5 + j < length pendingIcons \<longrightarrow>
          (\<exists>wk req post.
              events (world st') = events wk @ BatchPost req # post
            \<and> length (batchPosts (events wk)) = length (batchPosts (events (world st))) + k
            \<and> assembledFrom (allIcons st' ! (length (allIcons st) + k * 5 + j))
                (pendingIcons ! (i + k * 5 + j))
                (enrichmentAt
                   (fst (batchEnrichIcons E wk (take 5 (drop (i + k * 5) pendingIcons)))) j)))"
proof (induction "length pendingIcons - i" arbitrary: i st rule: less_induct)
  case less
  show ?case
  proof (cases "i < length pendingIcons")
    case False
    have "batchLoop E timestamp pendingIcons i st = Inr st"
      by (rule batchLoop_done [OF False])
    moreover have "\<exists>ext. events (world st) = events (world st) @ ext" by simp
    moreover have "\<exists>new. allIcons st = allIcons st @ new" by simp
    moreover have "\<not> (i + k * 5 + j < length pendingIcons)" for k j
      using False by simp
    ultimately show ?thesis by blast
  next
    case True
    let ?batch = "take 5 (drop i pendingIcons)"
    let ?w = "snd (batchEnrichIcons E (world st) ?batch)"
    let ?es = "fst (batchEnrichIcons E (world st) ?batch)"
    let ?st0 = "st\<lparr>world := ?w\<rparr>"
    let ?xs = "zip ?batch [0..<0 + length ?batch]"
    let ?st1 = "foldl (\<lambda>s x. addIcon E timestamp (fst x) (enrichmentAt ?es (snd x)) s) ?st0 ?xs"
    have m: "length pendingIcons - (i + 5) < length pendingIcons - i"
      using True by simp
    from less [OF m, of ?st1] obtain st' where
      r: "batchLoop E timestamp pendingIcons (i + 5) ?st1 = Inr st'"
      and e2: "\<exists>ext. events (world st') = events (world ?st1) @ ext"
      and n2: "\<exists>new. allIcons st' = allIcons ?st1 @ new"
      and p2: "\<forall>k j. j < 5 \<and> i + 5 + k * 5 + j < length pendingIcons \<longrightarrow>
          (\<exists>wk req post.
              events (world st') = events wk @ BatchPost req # post
            \<and> length (batchPosts (events wk)) = length (batchPosts (events (world ?st1))) + k
            \<and> assembledFrom (allIcons st' ! (length (allIcons ?st1) + k * 5 + j))
                (pendingIcons ! (i + 5 + k * 5 + j))
                (enrichmentAt
                   (fst (batchEnrichIcons E wk (take 5 (drop (i + 5 + k * 5) pendingIcons)))) j))"
      by blast
    from r have R: "batchLoop E timestamp pendingIcons i st = Inr st'"
      by (simp only: batchLoop_step [OF True, unfolded batchSize_def])
    have w0: "events (world ?st0) = events (world st) @ [BatchPost (batchInputOf ?batch)]"
      by (simp add: batchEnrichIcons_world)
    from fold_events [of E timestamp fst "\<lambda>x. enrichmentAt ?es (snd x)" ?st0 ?xs]
    obtain ext1 where e1: "events (world ?st1) = events (world ?st0) @ ext1"
      by blast
    from e2 obtain ext2 where e2': "events (world st') = events (world ?st1) @ ext2"
      by blast
    have ev: "events (world st')
                = events (world st) @ BatchPost (batchInputOf ?batch) # (ext1 @ ext2)"
      by (simp only: e2' e1 w0 append_assoc append_Cons append_Nil)
    then have E: "\<exists>ext. events (world st') = events (world st) @ ext"
      by blast
    have "extends E (map fst ?xs) ?st0 ?st1"
      by (rule fold_extends [of E fst _ _ timestamp "\<lambda>x. enrichmentAt ?es (snd x)"])
    then obtain new1 where n1: "allIcons ?st1 = allIcons ?st0 @ new1"
        and l1: "length new1 = length (map fst ?xs)"
      unfolding extends_def by blast
    have a0: "allIcons ?st0 = allIcons st" by simp
    from n2 obtain new2 where n2': "allIcons st' = allIcons ?st1 @ new2"
      by blast
    have N: "\<exists>new. allIcons st' = allIcons st @ new"
      by (rule exI [of _ "new1 @ new2"]) (simp only: n2' n1 a0 append_assoc)
    have lb: "length ?batch = min 5 (length pendingIcons - i)"
      by (simp add: min.commute)
    have ls: "length (allIcons ?st1) = length (allIcons st) + length ?batch"
      by (simp only: n1 a0 l1 length_append batchPayloads_length_zip)
    have bp: "length (batchPosts (events (world ?st1)))
                = length (batchPosts (events (world st))) + 1"
    proof -
      have "batchPosts (events (world ?st1)) = batchPosts (events (world ?st0))"
        by (rule fold_batchPosts [of E timestamp fst "\<lambda>x. enrichmentAt ?es (snd x)"])
      also have "\<dots> = batchPosts (events (world st)) @ [batchInputOf ?batch]"
        by (simp only: w0 batchPosts_append) (simp add: batchPosts_def)
      finally show ?thesis by simp
    qed
    have P: "\<exists>wk req post.
              events (world st') = events wk @ BatchPost req # post
            \<and> length (batchPosts (events wk)) = length (batchPosts (events (world st))) + k
            \<and> assembledFrom (allIcons st' ! (length (allIcons st) + k * 5 + j))
                (pendingIcons ! (i + k * 5 + j))
                (enrichmentAt
                   (fst (batchEnrichIcons E wk (take 5 (drop (i + k * 5) pendingIcons)))) j)"
      if j: "j < 5" and b: "i + k * 5 + j < length pendingIcons" for k j
    proof (cases k)
      case 0
      from j b have jb: "j < length ?batch" by (simp add: 0)
      then have jx: "j < length ?xs" by simp
      from jb have x: "?xs ! j = (?batch ! j, j)" by simp
      from jb True have bj: "?batch ! j = pendingIcons ! (i + j)" by simp
      from fold_assembled [OF jx, of E timestamp fst "\<lambda>x. enrichmentAt ?es (snd x)" ?st0]
      have "assembledFrom (allIcons ?st1 ! (length (allIcons st) + j))
              (pendingIcons ! (i + j)) (enrichmentAt ?es j)"
        by (simp only: x fst_conv snd_conv a0 bj)
      moreover have "allIcons st' ! (length (allIcons st) + j)
                       = allIcons ?st1 ! (length (allIcons st) + j)"
        using jb by (simp only: n2' nth_append ls) simp
      ultimately have "assembledFrom (allIcons st' ! (length (allIcons st) + k * 5 + j))
                (pendingIcons ! (i + k * 5 + j))
                (enrichmentAt
                   (fst (batchEnrichIcons E (world st) (take 5 (drop (i + k * 5) pendingIcons)))) j)"
        by (simp add: 0)
      moreover have "length (batchPosts (events (world st)))
                       = length (batchPosts (events (world st))) + k"
        by (simp add: 0)
      ultimately show ?thesis using ev by blast
    next
      case (Suc k')
      from b have b': "i + 5 + k' * 5 + j < length pendingIcons"
        by (simp add: Suc)
      then have full: "length ?batch = 5"
        by (simp add: lb)
      from p2 [rule_format, OF conjI [OF j b']] obtain wk req post where
        1: "events (world st') = events wk @ BatchPost req # post"
        and 2: "length (batchPosts (events wk)) = length (batchPosts (events (world ?st1))) + k'"
        and 3: "assembledFrom (allIcons st' ! (length (allIcons ?st1) + k' * 5 + j))
                (pendingIcons ! (i + 5 + k' * 5 + j))
                (enrichmentAt
                   (fst (batchEnrichIcons E wk (take 5 (drop (i + 5 + k' * 5) pendingIcons)))) j)"
        by blast
      have ls5: "length (allIcons ?st1) = length (allIcons st) + 5"
        by (rule trans [OF ls]) (simp only: full)
      have i1: "length (allIcons ?st1) + k' * 5 + j = length (allIcons st) + k * 5 + j"
        by (simp only: ls5) (simp add: Suc)
      have i2: "i + 5 + k' * 5 = i + k * 5"
        by (simp add: Suc)
      from 2 have p2a: "length (batchPosts (events wk))
                         = length (batchPosts (events (world st))) + k"
        unfolding bp Suc by simp
      from 3 have p3a: "assembledFrom (allIcons st' ! (length (allIcons st) + k * 5 + j))
                (pendingIcons ! (i + k * 5 + j))
                (enrichmentAt
                   (fst (batchEnrichIcons E wk (take 5 (drop (i + k * 5) pendingIcons)))) j)"
        by (simp only: i1 i2)
      from 1 p2a p3a show ?thesis by blast
    qed
    from R E N P show ?thesis by blast
  qed
qed




lemma individualLoop_plain:
  "\<not> (useLLMEnrichment cfg \<and> available) \<Longrightarrow>
     individualLoop cfg E available timestamp ps st =
       Inr (foldl (\<lambda>s x. addIcon E timestamp x zeroEnrichment s) st ps)"
  by (induction ps arbitrary: st) auto



lemma checkLLMService_world:
  "snd (checkLLMService E w) = w\<lparr>events := events w @ [HealthGet]\<rparr>"
  by (simp add: checkLLMService_def Let_def split: option.splits prod.splits)

lemma Generate_batch:
  assumes "useLLMEnrichment cfg" and "useBatchProcessing cfg" and "fst (checkLLMService E w)"
  shows "Generate cfg E w timestamp pendingIcons =
           batchLoop E timestamp pendingIcons 0
             \<lparr>world = w\<lparr>events := events w @ [HealthGet]\<rparr>, allIcons = [],
              providerIcons = Map.empty\<rparr>"
  using assms checkLLMService_world [of E w]
  by (simp add: Generate_def split_def)

lemma Generate_plain:
  assumes "\<not> useLLMEnrichment cfg \<or> \<not> fst (checkLLMService E w)"
  shows "Generate cfg E w timestamp pendingIcons =
           Inr (foldl (\<lambda>s x. addIcon E timestamp x zeroEnrichment s)
                  \<lparr>world = (if useLLMEnrichment cfg then w\<lparr>events := events w @ [HealthGet]\<rparr>
                            else w),
                   allIcons = [], providerIcons = Map.empty\<rparr> pendingIcons)"
  using assms checkLLMService_world [of E w]
  by (auto simp: Generate_def split_def individualLoop_plain)




section \<open>Batches\<close>

text \<open>
  C3. Whenever the exchange of \<^verbatim>\<open>batchEnrichIcons\<close> fails (the request does not serialize,
  cannot be built, is not answered, is answered with a status other than 200, or with a
  body that does not decode), the result is a list of zero-valued responses as long as the
  chunk, and the chunk was sent once: the world has one exchange more.
\<close>

theorem batchEnrichIcons_failure:
  assumes "marshalErr (batch_reply E (events w @ [BatchPost (batchInputOf pending)]))
     \<or> requestErr (batch_reply E (events w @ [BatchPost (batchInputOf pending)]))
     \<or> doResult (batch_reply E (events w @ [BatchPost (batchInputOf pending)])) = None
     \<or> (\<exists>status body.
           doResult (batch_reply E (events w @ [BatchPost (batchInputOf pending)]))
             = Some (status, body)
           \<and> (status \<noteq> 200 \<or> body = None))"
  shows "batchEnrichIcons E w pending =
           (replicate (length pending) zeroEnrichment,
            w\<lparr>events := events w @ [BatchPost (batchInputOf pending)]\<rparr>)
         \<and> length (fst (batchEnrichIcons E w pending)) = length pending
         \<and> (\<forall>r \<in> set (fst (batchEnrichIcons E w pending)). r = zeroEnrichment)"
proof -
  from assms
  have "batchEnrichIcons E w pending =
           (replicate (length pending) zeroEnrichment,
            w\<lparr>events := events w @ [BatchPost (batchInputOf pending)]\<rparr>)"
    by (auto simp: batchEnrichIcons_def Let_def StatusOK_def split: option.splits)
  then show ?thesis by simp
qed

theorem batchEnrichIcons_failure_witness:
  "doResult (batch_reply offline (events start @ [BatchPost (batchInputOf samplePending)])) = None
   \<and> fst (batchEnrichIcons offline start samplePending) = replicate 7 zeroEnrichment
   \<and> events (snd (batchEnrichIcons offline start samplePending))
       = [BatchPost (batchInputOf samplePending)]"
proof -
  have h: "doResult (batch_reply offline (events start @ [BatchPost (batchInputOf samplePending)]))
             = None"
    by (simp add: offline_def unreachable_def)
  have l: "length samplePending = 7"
    by (simp add: samplePending_def)
  from batchEnrichIcons_failure [of offline start samplePending] h
  show ?thesis by (simp add: l start_def)
qed

lemma batchInputOf_Icons:
  "BatchClassifyRequest.Icons (batchInputOf pending)
     = map (\<lambda>p. \<lparr>BatchIconInput.Provider = PendingIcon.Category p,
                   BatchIconInput.Title = PendingIcon.Title p,
                   BatchIconInput.DisplayName = PendingIcon.DisplayName p\<rparr>) pending"
  by (simp add: batchInputOf_def)

lemma slices_chunks:
  "map (\<lambda>k. take 5 (drop (k * 5) xs)) [0..<length (chunks batchSize xs)] = chunks batchSize xs"
  by (simp add: chunks_def chunk_def batchSize_def)

text \<open>
  C4. The batch size is 5. In batch mode \<^verbatim>\<open>Generate\<close> sends the \<open>N\<close> pending icons
  in slices of 5. The batch requests the run adds to the history are \<open>\<lceil>N / 5\<rceil>\<close>; request \<open>k\<close> lists the
  provider, title and display name of the icons from position \<open>5 k\<close> on, 5 of them or
  fewer when the list ends there, in their order; no request is empty and all but the last
  list 5 icons; the slices one after the other are the input.
\<close>

theorem batches_cover_input:
  assumes "useLLMEnrichment cfg" and "useBatchProcessing cfg" and "fst (checkLLMService E w)"
  shows "\<exists>st' requests. Generate cfg E w timestamp pendingIcons = Inr st'
           \<and> batchPosts (events (world st')) = batchPosts (events w) @ requests
           \<and> batchSize = 5
           \<and> int (length requests) = \<lceil>real (length pendingIcons) / 5\<rceil>
           \<and> (\<forall>k < length requests.
                 BatchClassifyRequest.Icons (requests ! k)
                   = map (\<lambda>p. \<lparr>BatchIconInput.Provider = PendingIcon.Category p,
                                 BatchIconInput.Title = PendingIcon.Title p,
                                 BatchIconInput.DisplayName = PendingIcon.DisplayName p\<rparr>)
                       (take 5 (drop (k * 5) pendingIcons))
                 \<and> 0 < length (BatchClassifyRequest.Icons (requests ! k))
                 \<and> length (BatchClassifyRequest.Icons (requests ! k)) \<le> 5
                 \<and> (Suc k < length requests
                      \<longrightarrow> length (BatchClassifyRequest.Icons (requests ! k)) = 5))
           \<and> concat (map (\<lambda>k. take 5 (drop (k * 5) pendingIcons)) [0..<length requests])
               = pendingIcons"
proof -
  let ?st = "\<lparr>world = w\<lparr>events := events w @ [HealthGet]\<rparr>, allIcons = [],
              providerIcons = Map.empty\<rparr>"
  let ?cs = "chunks batchSize pendingIcons"
  let ?rs = "map batchInputOf ?cs"
  from batchLoop_runs [of E timestamp pendingIcons 0 ?st] obtain st'
    where r: "batchLoop E timestamp pendingIcons 0 ?st = Inr st'"
      and b: "batchPosts (events (world st')) = batchPosts (events (world ?st))
                @ map batchInputOf (chunks batchSize (drop 0 pendingIcons))"
    by blast
  have h: "batchPosts (events (world ?st)) = batchPosts (events w)"
    by (simp add: batchPosts_append) (simp add: batchPosts_def)
  from r have 1: "Generate cfg E w timestamp pendingIcons = Inr st'"
    by (simp only: Generate_batch [OF assms])
  from b h have 2: "batchPosts (events (world st')) = batchPosts (events w) @ ?rs"
    by simp
  have 3: "int (length ?rs) = \<lceil>real (length pendingIcons) / 5\<rceil>"
    using length_chunks_ceiling [of pendingIcons] by (simp add: batchSize_def)
  have 4: "BatchClassifyRequest.Icons (?rs ! k)
             = map (\<lambda>p. \<lparr>BatchIconInput.Provider = PendingIcon.Category p,
                           BatchIconInput.Title = PendingIcon.Title p,
                           BatchIconInput.DisplayName = PendingIcon.DisplayName p\<rparr>)
                 (take 5 (drop (k * 5) pendingIcons))
           \<and> 0 < length (BatchClassifyRequest.Icons (?rs ! k))
           \<and> length (BatchClassifyRequest.Icons (?rs ! k)) \<le> 5
           \<and> (Suc k < length ?rs \<longrightarrow> length (BatchClassifyRequest.Icons (?rs ! k)) = 5)"
    if "k < length ?rs" for k
  proof -
    from that have k: "k < length ?cs" by simp
    have n: "?rs ! k = batchInputOf (?cs ! k)"
      using k by (rule nth_map)
    have l: "length (BatchClassifyRequest.Icons (?rs ! k)) = length (?cs ! k)"
      by (simp only: n batchInputOf_Icons length_map)
    have c: "?cs ! k = take 5 (drop (k * 5) pendingIcons)"
      using chunks_sizes(1) [OF k] by (simp only: batchSize_def)
    have a: "BatchClassifyRequest.Icons (?rs ! k)
             = map (\<lambda>p. \<lparr>BatchIconInput.Provider = PendingIcon.Category p,
                           BatchIconInput.Title = PendingIcon.Title p,
                           BatchIconInput.DisplayName = PendingIcon.DisplayName p\<rparr>)
                 (take 5 (drop (k * 5) pendingIcons))"
      by (simp only: n batchInputOf_Icons c)
    have p: "0 < length (BatchClassifyRequest.Icons (?rs ! k))"
      using chunks_sizes(2) [OF k] by (simp only: l)
    have q: "length (BatchClassifyRequest.Icons (?rs ! k)) \<le> 5"
      using chunks_sizes(3) [OF k] unfolding l by (simp only: batchSize_def)
    have s: "length (BatchClassifyRequest.Icons (?rs ! k)) = 5" if "Suc k < length ?rs"
    proof -
      from that have "Suc k < length ?cs" by simp
      from chunks_sizes(4) [OF k this] show ?thesis unfolding l by (simp only: batchSize_def)
    qed
    from a p q s show ?thesis by blast
  qed
  have 5: "concat (map (\<lambda>k. take 5 (drop (k * 5) pendingIcons)) [0..<length ?rs]) = pendingIcons"
    by (simp only: length_map slices_chunks concat_chunks)
  from 1 2 3 4 5 batchSize_def show ?thesis by blast
qed

lemma samplePending_values:
  "samplePending =
    [\<lparr>PendingIcon.Category = ''AWS'', PendingIcon.Title = ''vpc'', Link = ''AWS%vpc'',
       PendingIcon.DisplayName = ''Vpc''\<rparr>,
     \<lparr>PendingIcon.Category = ''AWS'', PendingIcon.Title = ''s3'', Link = ''AWS%s3'',
       PendingIcon.DisplayName = ''S3''\<rparr>,
     \<lparr>PendingIcon.Category = ''AWS'', PendingIcon.Title = ''s3'', Link = ''AWS%s3'',
       PendingIcon.DisplayName = ''S3''\<rparr>,
     \<lparr>PendingIcon.Category = ''GCP'', PendingIcon.Title = ''gke'', Link = ''GCP%gke'',
       PendingIcon.DisplayName = ''Gke''\<rparr>,
     \<lparr>PendingIcon.Category = ''DEV'', PendingIcon.Title = ''go'', Link = ''DEV%go'',
       PendingIcon.DisplayName = ''Go''\<rparr>,
     \<lparr>PendingIcon.Category = ''AZURE'', PendingIcon.Title = ''vm'', Link = ''AZURE%vm'',
       PendingIcon.DisplayName = ''Vm''\<rparr>,
     \<lparr>PendingIcon.Category = ''TECH'', PendingIcon.Title = ''db'', Link = ''TECH%db'',
       PendingIcon.DisplayName = ''Db''\<rparr>]"
  by code_simp

lemma online_health: "fst (checkLLMService online start)"
  by (simp add: checkLLMService_def online_def answered_def StatusOK_def Let_def)

text \<open>
  The seven sample icons go out in two requests, of five icons and of two.
\<close>

theorem batches_cover_input_witness:
  "useLLMEnrichment batch_config \<and> useBatchProcessing batch_config
   \<and> fst (checkLLMService online start)
   \<and> (\<exists>st'. Generate batch_config online start ''2026-01-01T00:00:00Z'' samplePending = Inr st'
         \<and> batchPosts (events (world st'))
             = [\<lparr>BatchClassifyRequest.Icons =
                   [\<lparr>BatchIconInput.Provider = ''AWS'', BatchIconInput.Title = ''vpc'',
                      BatchIconInput.DisplayName = ''Vpc''\<rparr>,
                    \<lparr>BatchIconInput.Provider = ''AWS'', BatchIconInput.Title = ''s3'',
                      BatchIconInput.DisplayName = ''S3''\<rparr>,
                    \<lparr>BatchIconInput.Provider = ''AWS'', BatchIconInput.Title = ''s3'',
                      BatchIconInput.DisplayName = ''S3''\<rparr>,
                    \<lparr>BatchIconInput.Provider = ''GCP'', BatchIconInput.Title = ''gke'',
                      BatchIconInput.DisplayName = ''Gke''\<rparr>,
                    \<lparr>BatchIconInput.Provider = ''DEV'', BatchIconInput.Title = ''go'',
                      BatchIconInput.DisplayName = ''Go''\<rparr>]\<rparr>,
                \<lparr>BatchClassifyRequest.Icons =
                   [\<lparr>BatchIconInput.Provider = ''AZURE'', BatchIconInput.Title = ''vm'',
                      BatchIconInput.DisplayName = ''Vm''\<rparr>,
                    \<lparr>BatchIconInput.Provider = ''TECH'', BatchIconInput.Title = ''db'',
                      BatchIconInput.DisplayName = ''Db''\<rparr>]\<rparr>])
   \<and> \<lceil>real (length samplePending) / 5\<rceil> = 2"
proof -
  have c: "useLLMEnrichment batch_config" "useBatchProcessing batch_config"
    by (simp_all add: batch_config_def)
  have e: "batchPosts (events start) = []"
    by (simp add: start_def batchPosts_def)
  have l: "\<lceil>real (length samplePending) / 5\<rceil> = 2"
    by (simp add: samplePending_def)
  from batches_cover_input [OF c online_health, of "''2026-01-01T00:00:00Z''" samplePending]
  obtain st' requests where
    g: "Generate batch_config online start ''2026-01-01T00:00:00Z'' samplePending = Inr st'"
    and b: "batchPosts (events (world st')) = batchPosts (events start) @ requests"
    and n: "int (length requests) = \<lceil>real (length samplePending) / 5\<rceil>"
    and i: "\<forall>k < length requests.
              BatchClassifyRequest.Icons (requests ! k)
                = map (\<lambda>p. \<lparr>BatchIconInput.Provider = PendingIcon.Category p,
                              BatchIconInput.Title = PendingIcon.Title p,
                              BatchIconInput.DisplayName = PendingIcon.DisplayName p\<rparr>)
                    (take 5 (drop (k * 5) samplePending))"
    by blast
  from n l have n2: "length requests = 2" by simp
  then obtain r0 r1 where rs: "requests = [r0, r1]"
    by (cases requests; cases "tl requests"; cases "tl (tl requests)") auto
  from i [rule_format, of 0] have r0: "BatchClassifyRequest.Icons r0
      = map (\<lambda>p. \<lparr>BatchIconInput.Provider = PendingIcon.Category p,
                    BatchIconInput.Title = PendingIcon.Title p,
                    BatchIconInput.DisplayName = PendingIcon.DisplayName p\<rparr>)
          (take 5 samplePending)"
    by (simp add: rs)
  from i [rule_format, of 1] have r1: "BatchClassifyRequest.Icons r1
      = map (\<lambda>p. \<lparr>BatchIconInput.Provider = PendingIcon.Category p,
                    BatchIconInput.Title = PendingIcon.Title p,
                    BatchIconInput.DisplayName = PendingIcon.DisplayName p\<rparr>)
          (drop 5 samplePending)"
    by (simp add: rs samplePending_def)
  have "batchPosts (events (world st')) = [r0, r1]"
    by (simp only: b e rs append_Nil)
  with r0 r1 g c online_health l show ?thesis
    by (simp add: samplePending_values)
qed



section \<open>Runs without enrichment, and identifiers\<close>

lemma assembled_zero_unenriched: "assembledFrom payload pending zeroEnrichment \<Longrightarrow> unenriched payload"
  by (simp add: assembledFrom_def unenriched_def zeroEnrichment_def arrayToJSON_def)

lemma extends_from_empty:
  assumes "extends E ps st st'" and "allIcons st = []"
  shows "length (allIcons st') = length ps"
    and "map ID (allIcons st') = map (uuid_New E) [drawn (world st)..<drawn (world st) + length ps]"
    and "map Slug (allIcons st')
           = map (\<lambda>p. generateSlug (unicode E) (PendingIcon.Category p) (PendingIcon.Title p)) ps"
  using assms unfolding extends_def by auto

text \<open>
  C2. When LLM enrichment is switched off, or the health check fails so that
  \<^verbatim>\<open>llmServiceAvailable\<close> is false, \<^verbatim>\<open>Generate\<close> completes with one payload for every pending
  icon, and every payload has \<^verbatim>\<open>Aliases\<close> and \<^verbatim>\<open>Tags\<close> equal to \<^verbatim>\<open>[]\<close>, an empty
  \<^verbatim>\<open>SemanticProfile\<close> and \<^verbatim>\<open>TechnicalIntent\<close>, \<^verbatim>\<open>IsContainer\<close> false and \<^verbatim>\<open>IconPosition\<close>
  equal to \<^verbatim>\<open>center\<close>.
\<close>

theorem unavailable_service_unenriched:
  assumes "\<not> useLLMEnrichment cfg \<or> \<not> fst (checkLLMService E w)"
  shows "\<exists>st'. Generate cfg E w timestamp pendingIcons = Inr st'
           \<and> length (allIcons st') = length pendingIcons
           \<and> (\<forall>payload \<in> set (allIcons st'). unenriched payload)"
proof -
  let ?st = "\<lparr>world = (if useLLMEnrichment cfg then w\<lparr>events := events w @ [HealthGet]\<rparr> else w),
              allIcons = [], providerIcons = Map.empty\<rparr>"
  let ?fin = "foldl (\<lambda>s x. addIcon E timestamp x zeroEnrichment s) ?st pendingIcons"
  have g: "Generate cfg E w timestamp pendingIcons = Inr ?fin"
    by (rule Generate_plain [OF assms])
  have "extends E (map (\<lambda>x. x) pendingIcons) ?st ?fin"
    by (rule fold_extends [of E "\<lambda>x. x" _ _ timestamp "\<lambda>x. zeroEnrichment"])
  then have "extends E pendingIcons ?st ?fin" by simp
  then have l: "length (allIcons ?fin) = length pendingIcons"
    by (rule extends_from_empty) simp
  have u: "unenriched payload" if "payload \<in> set (allIcons ?fin)" for payload
  proof -
    from that obtain j where j: "j < length pendingIcons" and p: "payload = allIcons ?fin ! j"
      by (auto simp: in_set_conv_nth l)
    from fold_assembled [OF j, of E timestamp "\<lambda>x. x" "\<lambda>x. zeroEnrichment" ?st]
    have "assembledFrom payload (pendingIcons ! j) zeroEnrichment"
      by (simp add: p)
    then show ?thesis by (rule assembled_zero_unenriched)
  qed
  from g l u show ?thesis by blast
qed

lemma offline_health: "\<not> fst (checkLLMService offline start)"
  by (simp add: checkLLMService_def offline_def unreachable_def Let_def)

theorem unavailable_service_unenriched_witness:
  "\<not> fst (checkLLMService offline start)
   \<and> (\<exists>st'. Generate batch_config offline start ''2026-01-01T00:00:00Z'' samplePending = Inr st'
         \<and> length (allIcons st') = 7
         \<and> list_all unenriched (allIcons st'))"
proof -
  have l: "length samplePending = 7" by (simp add: samplePending_def)
  from unavailable_service_unenriched
         [of batch_config offline start "''2026-01-01T00:00:00Z''" samplePending]
       offline_health
  show ?thesis by (auto simp: l list_all_iff)
qed








section \<open>Results of a batch that do not match the chunk\<close>

lemma enrichmentAt_take:
  "k < n \<Longrightarrow> enrichmentAt (take n enrichments) k = enrichmentAt enrichments k"
  by (simp add: enrichmentAt_def)

lemma batchPayloads_ignores_surplus:
  "batchPayloads E timestamp (take (length batch) enrichments) 0 batch st
     = batchPayloads E timestamp enrichments 0 batch st"
proof -
  have "foldl (\<lambda>s x. addIcon E timestamp (fst x)
                 (enrichmentAt (take (length batch) enrichments) (snd x)) s) st
          (zip batch [0..<0 + length batch])
      = foldl (\<lambda>s x. addIcon E timestamp (fst x) (enrichmentAt enrichments (snd x)) s) st
          (zip batch [0..<0 + length batch])"
  proof (rule foldl_cong [OF refl refl])
    fix s x assume "x \<in> set (zip batch [0..<0 + length batch])"
    then have "snd x \<in> set [0..<0 + length batch]"
      by (metis prod.collapse set_zip_rightD)
    then have "snd x < length batch" by simp
    then show "addIcon E timestamp (fst x)
                 (enrichmentAt (take (length batch) enrichments) (snd x)) s
             = addIcon E timestamp (fst x) (enrichmentAt enrichments (snd x)) s"
      by (simp only: enrichmentAt_take)
  qed
  then show ?thesis by (simp only: batchPayloads_fold)
qed

lemma online_results:
  "fst (batchEnrichIcons online w batch) = [vpcEnrichment, bucketEnrichment, vpcEnrichment]"
  by (simp add: batchEnrichIcons_def online_def answered_def StatusOK_def Let_def)

lemma Generate_positions:
  assumes "useLLMEnrichment cfg" and "useBatchProcessing cfg" and "fst (checkLLMService E w)"
  shows "\<exists>st'. Generate cfg E w timestamp pendingIcons = Inr st'
     \<and> length (allIcons st') = length pendingIcons
     \<and> (\<forall>k j. j < 5 \<and> k * 5 + j < length pendingIcons \<longrightarrow>
          (\<exists>wk req post.
              events (world st') = events wk @ BatchPost req # post
            \<and> length (batchPosts (events wk)) = length (batchPosts (events w)) + k
            \<and> assembledFrom (allIcons st' ! (k * 5 + j)) (pendingIcons ! (k * 5 + j))
                (enrichmentAt
                   (fst (batchEnrichIcons E wk (take 5 (drop (k * 5) pendingIcons)))) j)))"
proof -
  let ?st = "\<lparr>world = w\<lparr>events := events w @ [HealthGet]\<rparr>, allIcons = [],
              providerIcons = Map.empty\<rparr>"
  from batchLoop_positions [of E timestamp pendingIcons 0 ?st] obtain st' where
    r: "batchLoop E timestamp pendingIcons 0 ?st = Inr st'"
    and p: "\<forall>k j. j < 5 \<and> 0 + k * 5 + j < length pendingIcons \<longrightarrow>
          (\<exists>wk req post.
              events (world st') = events wk @ BatchPost req # post
            \<and> length (batchPosts (events wk)) = length (batchPosts (events (world ?st))) + k
            \<and> assembledFrom (allIcons st' ! (length (allIcons ?st) + k * 5 + j))
                (pendingIcons ! (0 + k * 5 + j))
                (enrichmentAt
                   (fst (batchEnrichIcons E wk (take 5 (drop (0 + k * 5) pendingIcons)))) j))"
    by blast
  from batchLoop_runs [of E timestamp pendingIcons 0 ?st] r
  have "extends E (drop 0 pendingIcons) ?st st'"
    by auto
  then have "extends E pendingIcons ?st st'" by simp
  then have l: "length (allIcons st') = length pendingIcons"
    by (rule extends_from_empty) simp
  have h: "batchPosts (events (world ?st)) = batchPosts (events w)"
    by (simp add: batchPosts_append) (simp add: batchPosts_def)
  have z: "length (allIcons ?st) = 0" by simp
  from r have g: "Generate cfg E w timestamp pendingIcons = Inr st'"
    by (simp only: Generate_batch [OF assms])
  from p have "\<forall>k j. j < 5 \<and> k * 5 + j < length pendingIcons \<longrightarrow>
          (\<exists>wk req post.
              events (world st') = events wk @ BatchPost req # post
            \<and> length (batchPosts (events wk)) = length (batchPosts (events w)) + k
            \<and> assembledFrom (allIcons st' ! (k * 5 + j)) (pendingIcons ! (k * 5 + j))
                (enrichmentAt
                   (fst (batchEnrichIcons E wk (take 5 (drop (k * 5) pendingIcons)))) j))"
    by (simp only: h z add_0)
  with g l show ?thesis by blast
qed

text \<open>
  C10. For any chunk and any list of results, whatever its length, the inner loop of the
  batch branch completes without a panic and appends one payload for every pending icon of
  the chunk, in order: the payload at position \<open>j\<close> is assembled from pending icon
  \<open>j\<close> and from result \<open>j\<close> when there is one, from the zero value otherwise. Results
  beyond the length of the chunk change nothing. A run of \<^verbatim>\<open>Generate\<close> in batch mode
  completes with one payload for every pending icon, and the payload of the icon at
  position \<open>j\<close> of slice \<open>k\<close> is assembled from that icon and from result \<open>j\<close> of
  what \<^verbatim>\<open>batchEnrichIcons\<close> returned for slice \<open>k\<close>, or from the zero value when that
  list has no result \<open>j\<close>. The world \<open>wk\<close> in which the slice was sent is the one whose
  history is that of the run up to its batch request number \<open>k\<close>.
\<close>

theorem batch_positions_safe:
  "(\<exists>st'. batchPayloads E timestamp enrichments 0 batch st = Inr st'
       \<and> length (allIcons st') = length (allIcons st) + length batch
       \<and> take (length (allIcons st)) (allIcons st') = allIcons st
       \<and> (\<forall>j < length batch.
             assembledFrom (allIcons st' ! (length (allIcons st) + j)) (batch ! j)
               (if j < length enrichments then enrichments ! j else zeroEnrichment)))
   \<and> batchPayloads E timestamp (take (length batch) enrichments) 0 batch st
       = batchPayloads E timestamp enrichments 0 batch st
   \<and> (useLLMEnrichment cfg \<and> useBatchProcessing cfg \<and> fst (checkLLMService E w)
        \<longrightarrow> (\<exists>st'. Generate cfg E w timestamp pendingIcons = Inr st'
               \<and> length (allIcons st') = length pendingIcons
               \<and> (\<forall>k j. j < 5 \<and> k * 5 + j < length pendingIcons \<longrightarrow>
                    (\<exists>wk req post.
                        events (world st') = events wk @ BatchPost req # post
                      \<and> length (batchPosts (events wk)) = length (batchPosts (events w)) + k
                      \<and> (let results =
                               fst (batchEnrichIcons E wk (take 5 (drop (k * 5) pendingIcons)))
                         in assembledFrom (allIcons st' ! (k * 5 + j))
                              (pendingIcons ! (k * 5 + j))
                              (if j < length results then results ! j else zeroEnrichment))))))"
proof -
  let ?xs = "zip batch [0..<0 + length batch]"
  let ?fin = "foldl (\<lambda>s x. addIcon E timestamp (fst x) (enrichmentAt enrichments (snd x)) s) st ?xs"
  have r: "batchPayloads E timestamp enrichments 0 batch st = Inr ?fin"
    by (rule batchPayloads_fold)
  have lx: "length ?xs = length batch" by simp
  have "extends E (map fst ?xs) st ?fin"
    by (rule fold_extends [of E fst _ _ timestamp "\<lambda>x. enrichmentAt enrichments (snd x)"])
  then obtain new where n: "allIcons ?fin = allIcons st @ new" "length new = length (map fst ?xs)"
    unfolding extends_def by blast
  from n have l: "length (allIcons ?fin) = length (allIcons st) + length batch"
    by simp
  from n have p: "take (length (allIcons st)) (allIcons ?fin) = allIcons st"
    by simp
  have a: "assembledFrom (allIcons ?fin ! (length (allIcons st) + j)) (batch ! j)
             (if j < length enrichments then enrichments ! j else zeroEnrichment)"
    if "j < length batch" for j
  proof -
    from that have j: "j < length ?xs" by simp
    from that have x: "?xs ! j = (batch ! j, j)" by simp
    from fold_assembled [OF j, of E timestamp fst "\<lambda>x. enrichmentAt enrichments (snd x)" st]
    show ?thesis by (simp only: x fst_conv snd_conv enrichmentAt_def)
  qed
  have 1: "\<exists>st'. batchPayloads E timestamp enrichments 0 batch st = Inr st'
       \<and> length (allIcons st') = length (allIcons st) + length batch
       \<and> take (length (allIcons st)) (allIcons st') = allIcons st
       \<and> (\<forall>j < length batch.
             assembledFrom (allIcons st' ! (length (allIcons st) + j)) (batch ! j)
               (if j < length enrichments then enrichments ! j else zeroEnrichment))"
    using r l p a by blast
  have 3: "\<exists>st'. Generate cfg E w timestamp pendingIcons = Inr st'
               \<and> length (allIcons st') = length pendingIcons
               \<and> (\<forall>k j. j < 5 \<and> k * 5 + j < length pendingIcons \<longrightarrow>
                    (\<exists>wk req post.
                        events (world st') = events wk @ BatchPost req # post
                      \<and> length (batchPosts (events wk)) = length (batchPosts (events w)) + k
                      \<and> (let results =
                               fst (batchEnrichIcons E wk (take 5 (drop (k * 5) pendingIcons)))
                         in assembledFrom (allIcons st' ! (k * 5 + j))
                              (pendingIcons ! (k * 5 + j))
                              (if j < length results then results ! j else zeroEnrichment))))"
    if c: "useLLMEnrichment cfg" "useBatchProcessing cfg" "fst (checkLLMService E w)"
    using Generate_positions [OF c, of timestamp pendingIcons]
    by (simp only: enrichmentAt_def Let_def)
  from 1 batchPayloads_ignores_surplus [of E timestamp batch enrichments st] 3
  show ?thesis by blast
qed

lemma assembled_fields:
  "assembledFrom payload pending enrichment \<Longrightarrow>
     IsContainer payload = LLMEnrichmentResponse.IsContainer enrichment
     \<and> SemanticProfile payload = LLMEnrichmentResponse.SemanticProfile enrichment
     \<and> IconPosition payload
         = (if LLMEnrichmentResponse.IsContainer enrichment then ''top-left'' else ''center'')
     \<and> DisplayName payload = PendingIcon.DisplayName pending"
  by (simp add: assembledFrom_def)

lemma seven_cases:
  assumes "n < (7::nat)"
  obtains "n = 0" | "n = 1" | "n = 2" | "n = 3" | "n = 4" | "n = 5" | "n = 6"
  using assms by linarith

text \<open>
  The seven sample icons against a service that returns three results for every request:
  of the five icons of the first slice the last two are assembled from the zero value, and
  the third result is not used for the two icons of the second slice.
\<close>

theorem batch_positions_safe_witness:
  "useLLMEnrichment batch_config \<and> useBatchProcessing batch_config
   \<and> fst (checkLLMService online start)
   \<and> (\<exists>st'. Generate batch_config online start ''2026-01-01T00:00:00Z'' samplePending = Inr st'
         \<and> length (allIcons st') = 7
         \<and> map IsContainer (allIcons st') = [True, False, True, False, False, True, False]
         \<and> map SemanticProfile (allIcons st')
             = [''networking'', ''objects'', ''networking'', [], [], ''networking'', ''objects'']
         \<and> map IconPosition (allIcons st')
             = [''top-left'', ''center'', ''top-left'', ''center'', ''center'', ''top-left'',
                ''center'']
         \<and> map DisplayName (allIcons st') = [''Vpc'', ''S3'', ''S3'', ''Gke'', ''Go'', ''Vm'', ''Db''])
   \<and> (\<exists>st'. batchPayloads online ''2026-01-01T00:00:00Z'' [vpcEnrichment] 0
               (take 3 samplePending) emptyRun = Inr st'
         \<and> length (allIcons st') = 3
         \<and> IsContainer (allIcons st' ! 0) \<and> IconPosition (allIcons st' ! 0) = ''top-left''
         \<and> \<not> IsContainer (allIcons st' ! 1) \<and> IconPosition (allIcons st' ! 1) = ''center''
         \<and> \<not> IsContainer (allIcons st' ! 2) \<and> Tags (allIcons st' ! 2) = ''[]'')"
proof -
  let ?used = "[vpcEnrichment, bucketEnrichment, vpcEnrichment, zeroEnrichment, zeroEnrichment,
                vpcEnrichment, bucketEnrichment]"
  have c: "useLLMEnrichment batch_config" "useBatchProcessing batch_config"
    by (simp_all add: batch_config_def)
  have l: "length samplePending = 7" "length (take 3 samplePending) = 3"
    by (simp_all add: samplePending_def)
  have e: "allIcons emptyRun = []" by (simp add: emptyRun_def)
  note t = batch_positions_safe [of online "''2026-01-01T00:00:00Z''" "[vpcEnrichment]"
      "take 3 samplePending" emptyRun batch_config start samplePending]
  from t c online_health obtain fin where
    g: "Generate batch_config online start ''2026-01-01T00:00:00Z'' samplePending = Inr fin"
    and n7: "length (allIcons fin) = 7"
    and pos: "\<forall>k j. j < 5 \<and> k * 5 + j < 7 \<longrightarrow>
                (\<exists>wk req post.
                    events (world fin) = events wk @ BatchPost req # post
                  \<and> length (batchPosts (events wk)) = length (batchPosts (events start)) + k
                  \<and> (let results =
                           fst (batchEnrichIcons online wk (take 5 (drop (k * 5) samplePending)))
                     in assembledFrom (allIcons fin ! (k * 5 + j)) (samplePending ! (k * 5 + j))
                          (if j < length results then results ! j else zeroEnrichment)))"
    by (simp only: l) blast
  have a: "assembledFrom (allIcons fin ! n) (samplePending ! n) (?used ! n)" if n: "n < 7" for n
  proof -
    have "n mod 5 < 5 \<and> n div 5 * 5 + n mod 5 < 7" using n by simp
    from pos [rule_format, OF this]
    have "assembledFrom (allIcons fin ! n) (samplePending ! n)
            (if n mod 5 < 3 then [vpcEnrichment, bucketEnrichment, vpcEnrichment] ! (n mod 5)
             else zeroEnrichment)"
      by (auto simp: online_results Let_def)
    moreover have "(if n mod 5 < 3 then [vpcEnrichment, bucketEnrichment, vpcEnrichment] ! (n mod 5)
                    else zeroEnrichment) = ?used ! n"
      using n by (rule seven_cases) simp_all
    ultimately show ?thesis by simp
  qed
  have m: "map h (allIcons fin) = map k ?used"
    if "\<And>n. n < 7 \<Longrightarrow> h (allIcons fin ! n) = k (?used ! n)"
    for h :: "IconPayload \<Rightarrow> 'b" and k
  proof (rule nth_equalityI)
    show "length (map h (allIcons fin)) = length (map k ?used)"
      by (simp add: n7)
  next
    fix i assume "i < length (map h (allIcons fin))"
    then have i: "i < 7" by (simp add: n7)
    have "map h (allIcons fin) ! i = h (allIcons fin ! i)"
      by (rule nth_map) (simp only: n7 i)
    moreover have "map k ?used ! i = k (?used ! i)"
      by (rule nth_map) (use i in simp)
    ultimately show "map h (allIcons fin) ! i = map k ?used ! i"
      by (simp only: that [OF i])
  qed
  have 1: "map IsContainer (allIcons fin) = map LLMEnrichmentResponse.IsContainer ?used"
    by (rule m) (simp only: assembled_fields [OF a])
  have 2: "map SemanticProfile (allIcons fin) = map LLMEnrichmentResponse.SemanticProfile ?used"
    by (rule m) (simp only: assembled_fields [OF a])
  have 3: "map IconPosition (allIcons fin)
             = map (\<lambda>r. if LLMEnrichmentResponse.IsContainer r then ''top-left'' else ''center'')
                 ?used"
    by (rule m) (simp only: assembled_fields [OF a])
  have 4: "map DisplayName (allIcons fin) = map PendingIcon.DisplayName samplePending"
    by (rule nth_equalityI) (simp_all add: n7 l assembled_fields [OF a])
  have G: "\<exists>st'. Generate batch_config online start ''2026-01-01T00:00:00Z'' samplePending = Inr st'
         \<and> length (allIcons st') = 7
         \<and> map IsContainer (allIcons st') = [True, False, True, False, False, True, False]
         \<and> map SemanticProfile (allIcons st')
             = [''networking'', ''objects'', ''networking'', [], [], ''networking'', ''objects'']
         \<and> map IconPosition (allIcons st')
             = [''top-left'', ''center'', ''top-left'', ''center'', ''center'', ''top-left'',
                ''center'']
         \<and> map DisplayName (allIcons st') = [''Vpc'', ''S3'', ''S3'', ''Gke'', ''Go'', ''Vm'', ''Db'']"
    using g n7
    by (intro exI [of _ fin] conjI)
       (simp_all add: 1 2 3 4 vpcEnrichment_def bucketEnrichment_def zeroEnrichment_def
          samplePending_values)
  from t obtain st' where
    r: "batchPayloads online ''2026-01-01T00:00:00Z'' [vpcEnrichment] 0
          (take 3 samplePending) emptyRun = Inr st'"
    and n: "length (allIcons st') = 3"
    and b: "\<forall>j < 3. assembledFrom (allIcons st' ! j) (take 3 samplePending ! j)
                (if j < length [vpcEnrichment] then [vpcEnrichment] ! j else zeroEnrichment)"
    by (simp only: l e list.size add_0) blast
  from b [rule_format, of 0] have p0:
    "IsContainer (allIcons st' ! 0)" "IconPosition (allIcons st' ! 0) = ''top-left''"
    by (simp_all add: assembledFrom_def vpcEnrichment_def)
  from b [rule_format, of 1] have p1:
    "\<not> IsContainer (allIcons st' ! 1)" "IconPosition (allIcons st' ! 1) = ''center''"
    by (simp_all add: assembledFrom_def zeroEnrichment_def)
  from b [rule_format, of 2] have p2:
    "\<not> IsContainer (allIcons st' ! 2)" "Tags (allIcons st' ! 2) = ''[]''"
    by (simp_all add: assembledFrom_def zeroEnrichment_def arrayToJSON_def)
  from c online_health G r n p0 p1 p2 show ?thesis by blast
qed



section \<open>UTF-8\<close>

lemma mod_offset:
  fixes b lo m :: nat
  assumes "lo \<le> b" and "b < lo + m" and "m dvd lo"
  shows "b mod m = b - lo"
proof -
  from assms(3) obtain q where q: "lo = m * q" by (auto simp: dvd_def)
  from assms(1) have "b = (b - lo) + q * m" by (simp add: q mult.commute)
  then have "b mod m = ((b - lo) + q * m) mod m" by simp
  also have "\<dots> = (b - lo) mod m" by (simp only: mod_mult_self1)
  also have "\<dots> = b - lo" using assms(1,2) by simp
  finally show ?thesis .
qed

lemma cont_mod: "cont c \<Longrightarrow> (of_char c :: nat) mod 64 = of_char c - 128 \<and> (of_char c :: nat) - 128 < 64
   \<and> 128 + (of_char c - 128) = (of_char c :: nat)"
  unfolding cont_def using mod_offset [of 128 "of_char c" 64] by simp

lemma DecodeRune_shape:
  assumes "DecodeRune (c # s) = (r, w)"
  shows "\<exists>sh. shaped c s r w sh"
proof -
  let ?b = "of_char c :: nat"
  consider (a) "?b < 0x80" | (b) "0xC2 \<le> ?b \<and> ?b \<le> 0xDF" | (c) "0xE0 \<le> ?b \<and> ?b \<le> 0xEF"
    | (d) "0xF0 \<le> ?b \<and> ?b \<le> 0xF4"
    | (e) "\<not> ?b < 0x80" "\<not> (0xC2 \<le> ?b \<and> ?b \<le> 0xDF)" "\<not> (0xE0 \<le> ?b \<and> ?b \<le> 0xEF)"
          "\<not> (0xF0 \<le> ?b \<and> ?b \<le> 0xF4)"
    by linarith
  then show ?thesis
  proof cases
    case a
    with assms have "shaped c s r w One" by (auto simp: shaped_def)
    then show ?thesis ..
  next
    case b
    with assms have "shaped c s r w Bad \<or> (\<exists>c1. shaped c s r w (Two c1))"
      by (auto simp: shaped_def Let_def split: list.splits if_splits)
    then show ?thesis by blast
  next
    case c
    then have n: "\<not> ?b < 0x80" "\<not> (0xC2 \<le> ?b \<and> ?b \<le> 0xDF)" by simp_all
    with c assms have "shaped c s r w Bad \<or> (\<exists>c1 c2. shaped c s r w (Three c1 c2))"
      by (auto simp: shaped_def Let_def split: list.splits if_splits)
    then show ?thesis by blast
  next
    case d
    then have n: "\<not> ?b < 0x80" "\<not> (0xC2 \<le> ?b \<and> ?b \<le> 0xDF)" "\<not> (0xE0 \<le> ?b \<and> ?b \<le> 0xEF)"
      by simp_all
    with d assms have "shaped c s r w Bad \<or> (\<exists>c1 c2 c3. shaped c s r w (Four c1 c2 c3))"
      by (auto simp: shaped_def Let_def split: list.splits if_splits)
    then show ?thesis by blast
  next
    case e
    with assms have "shaped c s r w Bad" by (simp add: shaped_def Let_def)
    then show ?thesis ..
  qed
qed

lemma divmod64:
  fixes x y :: nat
  assumes "y < 64"
  shows "(x * 64 + y) div 64 = x" and "(x * 64 + y) mod 64 = y"
  using assms by simp_all

lemma two_bytes:
  fixes b0 b1 :: nat
  assumes "0xC2 \<le> b0" "b0 \<le> 0xDF" "0x80 \<le> b1" "b1 \<le> 0xBF"
  defines "r \<equiv> (b0 mod 32) * 64 + b1 mod 64"
  shows "0x80 \<le> r" "r \<le> 0x7FF" "0xC0 + r div 64 = b0" "0x80 + r mod 64 = b1"
proof -
  have x: "b0 mod 32 = b0 - 192" using mod_offset [of 192 b0 32] assms by simp
  have y: "b1 mod 64 = b1 - 128" using mod_offset [of 128 b1 64] assms by simp
  define X Y where "X = b0 - 192" and "Y = b1 - 128"
  have bounds: "2 \<le> X" "X < 32" "Y < 64" "b0 = 192 + X" "b1 = 128 + Y"
    using assms(1-4) by (auto simp: X_def Y_def)
  have r: "r = X * 64 + Y" by (simp add: r_def x y X_def Y_def)
  have d64: "r div 64 = X" by (simp only: r divmod64(1) [OF bounds(3)])
  have m64: "r mod 64 = Y" by (simp only: r divmod64(2) [OF bounds(3)])
  show "0x80 \<le> r" "r \<le> 0x7FF" using bounds by (simp_all add: r)
  show "0xC0 + r div 64 = b0" by (simp add: d64 bounds(4))
  show "0x80 + r mod 64 = b1" by (simp add: m64 bounds(5))
qed

lemma three_bytes:
  fixes b0 b1 b2 :: nat
  assumes "0xE0 \<le> b0" "b0 \<le> 0xEF" "accept_lo b0 \<le> b1" "b1 \<le> accept_hi b0"
     "0x80 \<le> b2" "b2 \<le> 0xBF"
  defines "r \<equiv> (b0 mod 16) * 4096 + (b1 mod 64) * 64 + b2 mod 64"
  shows "0x7FF < r" "r \<le> 0xFFFF" "\<not> (0xD800 \<le> r \<and> r \<le> 0xDFFF)"
    "0xE0 + r div 4096 = b0" "0x80 + (r div 64) mod 64 = b1" "0x80 + r mod 64 = b2"
proof -
  have b1: "0x80 \<le> b1" "b1 \<le> 0xBF" "b0 = 0xE0 \<longrightarrow> 0xA0 \<le> b1" "b0 = 0xED \<longrightarrow> b1 \<le> 0x9F"
    using assms(1-4) by (auto simp: accept_lo_def accept_hi_def split: if_splits)
  have x: "b0 mod 16 = b0 - 224" using mod_offset [of 224 b0 16] assms by simp
  have y: "b1 mod 64 = b1 - 128" using mod_offset [of 128 b1 64] b1 by simp
  have z: "b2 mod 64 = b2 - 128" using mod_offset [of 128 b2 64] assms by simp
  define X Y Z where "X = b0 - 224" and "Y = b1 - 128" and "Z = b2 - 128"
  have bounds: "X < 16" "Y < 64" "Z < 64" "b0 = 224 + X" "b1 = 128 + Y" "b2 = 128 + Z"
    "X = 0 \<longrightarrow> 32 \<le> Y" "X = 13 \<longrightarrow> Y < 32"
    using assms(1,2,5,6) b1 by (auto simp: X_def Y_def Z_def)
  have r: "r = X * 4096 + Y * 64 + Z" by (simp add: r_def x y z X_def Y_def Z_def)
  have r64: "r = (X * 64 + Y) * 64 + Z" by (simp add: r)
  have d64: "r div 64 = X * 64 + Y" by (simp only: r64 divmod64(1) [OF bounds(3)])
  have m64: "r mod 64 = Z" by (simp only: r64 divmod64(2) [OF bounds(3)])
  have r4096: "r = X * 4096 + (Y * 64 + Z)" by (simp add: r)
  have yz: "Y * 64 + Z < 4096" using bounds(2,3) by simp
  have d4096: "r div 4096 = X" unfolding r4096 using yz by simp
  show "0x7FF < r" using bounds by (cases "X = 0") (simp_all add: r)
  show "r \<le> 0xFFFF" using bounds by (simp add: r)
  show "\<not> (0xD800 \<le> r \<and> r \<le> 0xDFFF)"
  proof -
    consider "X \<le> 12" | "X = 13" | "14 \<le> X" by linarith
    then show ?thesis using bounds by cases (simp_all add: r)
  qed
  show "0xE0 + r div 4096 = b0" by (simp add: d4096 bounds(4))
  show "0x80 + (r div 64) mod 64 = b1" using bounds(2) by (simp add: d64 bounds(5))
  show "0x80 + r mod 64 = b2" by (simp add: m64 bounds(6))
qed

lemma four_bytes:
  fixes b0 b1 b2 b3 :: nat
  assumes "0xF0 \<le> b0" "b0 \<le> 0xF4" "accept_lo b0 \<le> b1" "b1 \<le> accept_hi b0"
     "0x80 \<le> b2" "b2 \<le> 0xBF" "0x80 \<le> b3" "b3 \<le> 0xBF"
  defines "r \<equiv> (b0 mod 8) * 262144 + (b1 mod 64) * 4096 + (b2 mod 64) * 64 + b3 mod 64"
  shows "0xFFFF < r" "r \<le> 0x10FFFF"
    "0xF0 + r div 262144 = b0" "0x80 + (r div 4096) mod 64 = b1"
    "0x80 + (r div 64) mod 64 = b2" "0x80 + r mod 64 = b3"
proof -
  have b1: "0x80 \<le> b1" "b1 \<le> 0xBF" "b0 = 0xF0 \<longrightarrow> 0x90 \<le> b1" "b0 = 0xF4 \<longrightarrow> b1 \<le> 0x8F"
    using assms(1-4) by (auto simp: accept_lo_def accept_hi_def split: if_splits)
  have x: "b0 mod 8 = b0 - 240" using mod_offset [of 240 b0 8] assms by simp
  have y: "b1 mod 64 = b1 - 128" using mod_offset [of 128 b1 64] b1 by simp
  have z: "b2 mod 64 = b2 - 128" using mod_offset [of 128 b2 64] assms by simp
  have t: "b3 mod 64 = b3 - 128" using mod_offset [of 128 b3 64] assms by simp
  define X Y Z T where "X = b0 - 240" and "Y = b1 - 128" and "Z = b2 - 128" and "T = b3 - 128"
  have bounds: "X < 5" "Y < 64" "Z < 64" "T < 64"
    "b0 = 240 + X" "b1 = 128 + Y" "b2 = 128 + Z" "b3 = 128 + T"
    "X = 0 \<longrightarrow> 16 \<le> Y" "X = 4 \<longrightarrow> Y < 16"
    using assms(1,2,5-8) b1 by (auto simp: X_def Y_def Z_def T_def)
  have r: "r = X * 262144 + Y * 4096 + Z * 64 + T"
    by (simp add: r_def x y z t X_def Y_def Z_def T_def)
  have r64: "r = ((X * 64 + Y) * 64 + Z) * 64 + T" by (simp add: r)
  have d64: "r div 64 = (X * 64 + Y) * 64 + Z" by (simp only: r64 divmod64(1) [OF bounds(4)])
  have m64: "r mod 64 = T" by (simp only: r64 divmod64(2) [OF bounds(4)])
  have r4096: "r = (X * 64 + Y) * 4096 + (Z * 64 + T)" by (simp add: r)
  have zt: "Z * 64 + T < 4096" using bounds(3,4) by simp
  have d4096: "r div 4096 = X * 64 + Y" unfolding r4096 using zt by simp
  have rbig: "r = X * 262144 + (Y * 4096 + Z * 64 + T)" by (simp add: r)
  have yzt: "Y * 4096 + Z * 64 + T < 262144" using bounds(2,3,4) by simp
  have dbig: "r div 262144 = X" unfolding rbig using yzt by simp
  show "0xFFFF < r" using bounds by (cases "X = 0") (simp_all add: r)
  show "r \<le> 0x10FFFF"
  proof -
    consider "X \<le> 3" | "X = 4" using bounds(1) by linarith
    then show ?thesis using bounds by cases (simp_all add: r)
  qed
  show "0xF0 + r div 262144 = b0" by (simp add: dbig bounds(5))
  show "0x80 + (r div 4096) mod 64 = b1" using bounds(2) by (simp add: d4096 bounds(6))
  have "(r div 64) mod 64 = Z" by (simp only: d64 divmod64(2) [OF bounds(3)])
  then show "0x80 + (r div 64) mod 64 = b2" by (simp add: bounds(7))
  show "0x80 + r mod 64 = b3" by (simp add: m64 bounds(8))
qed

lemma EncodeRune_DecodeRune:
  assumes d: "DecodeRune (c # s) = (r, w)" and v: "\<not> (r = RuneError \<and> w = 1)"
  shows "EncodeRune r = take w (c # s)"
proof -
  from DecodeRune_shape [OF d] obtain sh where sh: "shaped c s r w sh" ..
  show ?thesis
  proof (cases sh)
    case Bad
    with sh v show ?thesis by (simp add: shaped_def)
  next
    case One
    with sh show ?thesis by (simp add: shaped_def EncodeRune_def)
  next
    case (Two c1)
    with sh obtain s' where s: "s = c1 # s'" and w: "w = 2"
      and b: "0xC2 \<le> (of_char c :: nat)" "(of_char c :: nat) \<le> 0xDF" "cont c1"
      and r: "r = (of_char c mod 32) * 64 + of_char c1 mod 64"
      by (auto simp: shaped_def)
    from b(3) have c1: "0x80 \<le> (of_char c1 :: nat)" "(of_char c1 :: nat) \<le> 0xBF"
      by (simp_all add: cont_def)
    note t = two_bytes [OF b(1,2) c1, folded r]
    from t(1) have n: "\<not> r \<le> 0x7F" by simp
    have "EncodeRune r = [char_of (0xC0 + r div 64), char_of (0x80 + r mod 64)]"
      using n t(2) by (simp add: EncodeRune_def)
    also have "\<dots> = [c, c1]" by (simp only: t(3,4) char_of_char)
    finally show ?thesis by (simp add: s w)
  next
    case (Three c1 c2)
    with sh obtain s' where s: "s = c1 # c2 # s'" and w: "w = 3"
      and b: "0xE0 \<le> (of_char c :: nat)" "(of_char c :: nat) \<le> 0xEF"
        "accept_lo (of_char c) \<le> of_char c1" "of_char c1 \<le> accept_hi (of_char c)" "cont c2"
      and r: "r = (of_char c mod 16) * 4096 + (of_char c1 mod 64) * 64 + of_char c2 mod 64"
      by (auto simp: shaped_def)
    from b(5) have c2: "0x80 \<le> (of_char c2 :: nat)" "(of_char c2 :: nat) \<le> 0xBF"
      by (simp_all add: cont_def)
    note t = three_bytes [OF b(1-4) c2, folded r]
    from t(1) have n: "\<not> r \<le> 0x7F" "\<not> r \<le> 0x7FF" by simp_all
    from t(2) have m: "\<not> r > 0x10FFFF" by simp
    have "EncodeRune r = [char_of (0xE0 + r div 4096), char_of (0x80 + (r div 64) mod 64),
        char_of (0x80 + r mod 64)]"
      using n m t(2,3) by (auto simp: EncodeRune_def)
    also have "\<dots> = [c, c1, c2]" by (simp only: t(4,5,6) char_of_char)
    finally show ?thesis by (simp add: s w)
  next
    case (Four c1 c2 c3)
    with sh obtain s' where s: "s = c1 # c2 # c3 # s'" and w: "w = 4"
      and b: "0xF0 \<le> (of_char c :: nat)" "(of_char c :: nat) \<le> 0xF4"
        "accept_lo (of_char c) \<le> of_char c1" "of_char c1 \<le> accept_hi (of_char c)"
        "cont c2" "cont c3"
      and r: "r = (of_char c mod 8) * 262144 + (of_char c1 mod 64) * 4096
                + (of_char c2 mod 64) * 64 + of_char c3 mod 64"
      by (auto simp: shaped_def)
    from b(5,6) have c23: "0x80 \<le> (of_char c2 :: nat)" "(of_char c2 :: nat) \<le> 0xBF"
        "0x80 \<le> (of_char c3 :: nat)" "(of_char c3 :: nat) \<le> 0xBF"
      by (simp_all add: cont_def)
    note t = four_bytes [OF b(1-4) c23, folded r]
    from t(1) have n: "\<not> r \<le> 0x7F" "\<not> r \<le> 0x7FF" "\<not> r \<le> 0xFFFF"
      "\<not> (0xD800 \<le> r \<and> r \<le> 0xDFFF)" by simp_all
    from t(2) have m: "\<not> r > 0x10FFFF" by simp
    have "EncodeRune r = [char_of (0xF0 + r div 262144), char_of (0x80 + (r div 4096) mod 64),
        char_of (0x80 + (r div 64) mod 64), char_of (0x80 + r mod 64)]"
      using n m by (simp add: EncodeRune_def)
    also have "\<dots> = [c, c1, c2, c3]" by (simp only: t(3,4,5,6) char_of_char)
    finally show ?thesis by (simp add: s w)
  qed
qed

lemma DecodeRune_prefix:
  assumes d: "DecodeRune (c # s) = (r, w)" and v: "\<not> (r = RuneError \<and> w = 1)"
  shows "DecodeRune (take w (c # s) @ rest) = (r, w)"
proof -
  from DecodeRune_shape [OF d] obtain sh where sh: "shaped c s r w sh" ..
  show ?thesis
  proof (cases sh)
    case Bad
    with sh v show ?thesis by (simp add: shaped_def)
  next
    case One
    with sh d show ?thesis by (auto simp: shaped_def Let_def split: if_splits)
  next
    case (Two c1)
    with sh d show ?thesis by (auto simp: shaped_def Let_def)
  next
    case (Three c1 c2)
    with sh d show ?thesis by (auto simp: shaped_def Let_def)
  next
    case (Four c1 c2 c3)
    with sh d show ?thesis by (auto simp: shaped_def Let_def)
  qed
qed

lemma DecodeRune_width:
  assumes d: "DecodeRune (c # s) = (r, w)"
  shows "1 \<le> w \<and> w \<le> length (c # s)"
proof -
  from DecodeRune_shape [OF d] obtain sh where sh: "shaped c s r w sh" ..
  then show ?thesis by (cases sh) (auto simp: shaped_def)
qed

lemma DecodeRune_ascii:
  assumes d: "DecodeRune (c # s) = (r, w)" and a: "r < 0x80"
  shows "w = 1 \<and> r = of_char c"
proof -
  from DecodeRune_shape [OF d] obtain sh where sh: "shaped c s r w sh" ..
  show ?thesis
  proof (cases sh)
    case Bad
    with sh a show ?thesis by (simp add: shaped_def RuneError_def)
  next
    case One
    with sh show ?thesis by (simp add: shaped_def)
  next
    case (Two c1)
    with sh have b: "0xC2 \<le> (of_char c :: nat)" "(of_char c :: nat) \<le> 0xDF" "cont c1"
      and r: "r = (of_char c mod 32) * 64 + of_char c1 mod 64"
      by (auto simp: shaped_def)
    from b(3) have c1: "0x80 \<le> (of_char c1 :: nat)" "(of_char c1 :: nat) \<le> 0xBF"
      by (simp_all add: cont_def)
    from two_bytes(1) [OF b(1,2) c1, folded r] a show ?thesis by simp
  next
    case (Three c1 c2)
    with sh have b: "0xE0 \<le> (of_char c :: nat)" "(of_char c :: nat) \<le> 0xEF"
        "accept_lo (of_char c) \<le> of_char c1" "of_char c1 \<le> accept_hi (of_char c)" "cont c2"
      and r: "r = (of_char c mod 16) * 4096 + (of_char c1 mod 64) * 64 + of_char c2 mod 64"
      by (auto simp: shaped_def)
    from b(5) have c2: "0x80 \<le> (of_char c2 :: nat)" "(of_char c2 :: nat) \<le> 0xBF"
      by (simp_all add: cont_def)
    from three_bytes(1) [OF b(1-4) c2, folded r] a show ?thesis by simp
  next
    case (Four c1 c2 c3)
    with sh have b: "0xF0 \<le> (of_char c :: nat)" "(of_char c :: nat) \<le> 0xF4"
        "accept_lo (of_char c) \<le> of_char c1" "of_char c1 \<le> accept_hi (of_char c)"
        "cont c2" "cont c3"
      and r: "r = (of_char c mod 8) * 262144 + (of_char c1 mod 64) * 4096
                + (of_char c2 mod 64) * 64 + of_char c3 mod 64"
      by (auto simp: shaped_def)
    from b(5,6) have c23: "0x80 \<le> (of_char c2 :: nat)" "(of_char c2 :: nat) \<le> 0xBF"
        "0x80 \<le> (of_char c3 :: nat)" "(of_char c3 :: nat) \<le> 0xBF"
      by (simp_all add: cont_def)
    from four_bytes(1) [OF b(1-4) c23, folded r] a show ?thesis by simp
  qed
qed

lemma DecodeRune_high:
  assumes d: "DecodeRune (c # s) = (r, w)" and a: "\<not> r < 0x80"
  shows "\<not> (of_char c :: nat) < 0x80"
  using assms by (auto simp: Let_def)


section \<open>JSON text read back\<close>

lemma range_runes_drop: "range_runes k s = range_runes 0 (drop k s)"
proof (induction s arbitrary: k)
  case Nil
  show ?case by simp
next
  case (Cons c s)
  show ?case
  proof (cases k)
    case 0
    show ?thesis by (simp only: 0 drop_0)
  next
    case (Suc k')
    show ?thesis by (simp add: Suc Cons.IH [of k'])
  qed
qed

lemma runes_Cons:
  assumes "DecodeRune (c # s) = (r, w)"
  shows "runes (c # s) = (r, take w (c # s)) # runes (drop w (c # s))"
proof -
  from DecodeRune_width [OF assms] obtain w' where w: "w = Suc w'"
    by (cases w) auto
  have "runes (c # s) = (r, take w (c # s)) # range_runes (w - 1) s"
    by (simp add: runes_def assms del: DecodeRune.simps)
  also have "range_runes (w - 1) s = runes (drop w (c # s))"
    by (simp add: w runes_def range_runes_drop [of w' s])
  finally show ?thesis .
qed

lemma skip_bytes:
  "length xs = k \<Longrightarrow>
     decodeStrings (InString k) cur done (xs @ rest) = decodeStrings (InString 0) cur done rest"
  by (induction xs arbitrary: k) auto

lemma hex_digits: "list_all (\<lambda>k. hexVal (hexDigit k) = Some k) [0..<16]"
  by code_simp

lemma hexVal_hexDigit: "hexVal (hexDigit n) = Some (n mod 16)"
proof -
  have "n mod 16 \<in> set [0..<16]" by simp
  with hex_digits have "hexVal (hexDigit (n mod 16)) = Some (n mod 16)"
    unfolding list_all_iff by blast
  then show ?thesis by (simp add: hexDigit_def)
qed

lemma hexVal_0: "hexVal (CHR ''0'') = Some 0" and hexVal_2: "hexVal (CHR ''2'') = Some 2"
  by (simp_all add: hexVal_def)

lemma getu4_byte:
  assumes "r < 0x80"
  shows "getu4 (CHR ''0'') (CHR ''0'') (hexDigit (r div 16)) (hexDigit r) = Some r"
proof -
  from assms have "r div 16 < 16" by simp
  then have "(r div 16) mod 16 = r div 16" by simp
  then show ?thesis
    by (simp add: getu4_def hexVal_0 hexVal_hexDigit)
qed

lemma getu4_separator:
  assumes "r = 0x2028 \<or> r = 0x2029"
  shows "getu4 (CHR ''2'') (CHR ''0'') (CHR ''2'') (hexDigit r) = Some r"
  using assms by (auto simp: getu4_def hexVal_0 hexVal_2 hexVal_hexDigit)

lemma char_by_code: "(of_char c :: nat) = of_char d \<Longrightarrow> c = d"
  by simp

lemma decode_escaped:
  assumes g: "getu4 h1 h2 h3 h4 = Some r" and s: "\<not> isSurrogate r"
  shows "decodeStrings (InString 0) cur done (CHR 0x5C # CHR ''u'' # h1 # h2 # h3 # h4 # rest)
           = decodeStrings (InString 0) (cur @ EncodeRune r) done rest"
  using g s by simp

lemma decode_plain:
  assumes "0x20 \<le> (of_char c :: nat)" "(of_char c :: nat) < 0x80"
    "(of_char c :: nat) \<noteq> 0x22" "(of_char c :: nat) \<noteq> 0x5C"
  shows "decodeStrings (InString 0) cur done (c # rest)
           = decodeStrings (InString 0) (cur @ [c]) done rest"
proof -
  from assms(3) have "c \<noteq> CHR 0x22" by auto
  moreover from assms(4) have "c \<noteq> CHR 0x5C" by auto
  ultimately show ?thesis using assms(1,2) by simp
qed

lemma decode_simple_escape:
  assumes "unescape e = Some d" and "e \<noteq> CHR ''u''"
  shows "decodeStrings (InString 0) cur done (CHR 0x5C # e # rest)
           = decodeStrings (InString 0) (cur @ [d]) done rest"
  using assms by simp

lemma decode_high:
  assumes d: "DecodeRune (c # s) = (r, w)" and h: "\<not> (of_char c :: nat) < 0x80"
  shows "decodeStrings (InString 0) cur done (c # s)
           = decodeStrings (InString (w - 1)) (cur @ EncodeRune r) done s"
proof -
  from h have "c \<noteq> CHR 0x22" "c \<noteq> CHR 0x5C" "\<not> (of_char c :: nat) < 0x20" by auto
  then show ?thesis using h d by (simp del: DecodeRune.simps)
qed

lemma decode_quoted_ascii:
  assumes r: "r = (of_char c :: nat)" and a: "r < 0x80"
  shows "decodeStrings (InString 0) cur done (quoteRune (r, [c]) @ rest)
           = decodeStrings (InString 0) (cur @ [c]) done rest"
proof -
  consider (safe) "htmlSafe r"
    | (quote) "r = 0x5C \<or> r = 0x22"
    | (ctl) "r = 0x08 \<or> r = 0x0C \<or> r = 0x0A \<or> r = 0x0D \<or> r = 0x09"
    | (other) "\<not> htmlSafe r" "r \<noteq> 0x5C" "r \<noteq> 0x22" "r \<noteq> 0x08" "r \<noteq> 0x0C" "r \<noteq> 0x0A"
        "r \<noteq> 0x0D" "r \<noteq> 0x09"
    by blast
  then show ?thesis
  proof cases
    case safe
    then have q: "quoteRune (r, [c]) = [c]" using a by (simp add: quoteRune_def)
    from safe have "0x20 \<le> (of_char c :: nat)" "(of_char c :: nat) < 0x80"
      "(of_char c :: nat) \<noteq> 0x22" "(of_char c :: nat) \<noteq> 0x5C"
      by (simp_all add: htmlSafe_def r)
    from decode_plain [OF this] show ?thesis by (simp add: q)
  next
    case quote
    then have c: "c = CHR 0x5C \<or> c = CHR 0x22"
      unfolding r by (auto intro: char_by_code)
    from quote have q: "quoteRune (r, [c]) = [CHR 0x5C, c]"
      using a by (auto simp: quoteRune_def htmlSafe_def)
    from c have "unescape c = Some c" "c \<noteq> CHR ''u''" by (auto simp: unescape_def)
    from decode_simple_escape [OF this] show ?thesis by (simp add: q)
  next
    case ctl
    then consider "r = 0x08" | "r = 0x0C" | "r = 0x0A" | "r = 0x0D" | "r = 0x09" by blast
    then show ?thesis
    proof cases
      case 1
      then have c: "c = CHR 0x08" unfolding r by (auto intro: char_by_code)
      show ?thesis by (simp add: 1 c quoteRune_def htmlSafe_def unescape_def)
    next
      case 2
      then have c: "c = CHR 0x0C" unfolding r by (auto intro: char_by_code)
      show ?thesis by (simp add: 2 c quoteRune_def htmlSafe_def unescape_def)
    next
      case 3
      then have c: "c = CHR 0x0A" unfolding r by (auto intro: char_by_code)
      show ?thesis by (simp add: 3 c quoteRune_def htmlSafe_def unescape_def)
    next
      case 4
      then have c: "c = CHR 0x0D" unfolding r by (auto intro: char_by_code)
      show ?thesis by (simp add: 4 c quoteRune_def htmlSafe_def unescape_def)
    next
      case 5
      then have c: "c = CHR 0x09" unfolding r by (auto intro: char_by_code)
      show ?thesis by (simp add: 5 c quoteRune_def htmlSafe_def unescape_def)
    qed
  next
    case other
    then have q: "quoteRune (r, [c])
        = [CHR 0x5C, CHR ''u'', CHR ''0'', CHR ''0'', hexDigit (r div 16), hexDigit r]"
      using a by (simp add: quoteRune_def)
    from a have s: "\<not> isSurrogate r" by (simp add: isSurrogate_def)
    have e: "EncodeRune r = [c]" using a by (simp add: EncodeRune_def r)
    from decode_escaped [OF getu4_byte [OF a] s, of cur "done" rest] show ?thesis
      by (simp add: q e)
  qed
qed

lemma decode_quoted_rune:
  assumes d: "DecodeRune (c # s) = (r, w)" and v: "\<not> (r = RuneError \<and> w = 1)"
  shows "decodeStrings (InString 0) cur done (quoteRune (r, take w (c # s)) @ rest)
           = decodeStrings (InString 0) (cur @ take w (c # s)) done rest"
proof (cases "r < 0x80")
  case True
  from DecodeRune_ascii [OF d True] have w: "w = 1" and r: "r = of_char c" by simp_all
  from decode_quoted_ascii [OF r True, of cur "done" rest] show ?thesis
    by (simp add: w)
next
  case False
  note e = EncodeRune_DecodeRune [OF d v]
  show ?thesis
  proof (cases "r = 0x2028 \<or> r = 0x2029")
    case True
    then have q: "quoteRune (r, take w (c # s))
        = [CHR 0x5C, CHR ''u'', CHR ''2'', CHR ''0'', CHR ''2'', hexDigit r]"
      by (auto simp: quoteRune_def RuneError_def)
    from True have s: "\<not> isSurrogate r" by (auto simp: isSurrogate_def)
    from decode_escaped [OF getu4_separator [OF True] s, of cur "done" rest] show ?thesis
      by (simp only: q e append_Cons append_Nil)
  next
    case sep: False
    from v DecodeRune_width [OF d] have l: "length (take w (c # s)) = w" by simp
    have q: "quoteRune (r, take w (c # s)) = take w (c # s)"
      using False sep v l by (auto simp: quoteRune_def simp del: take_Suc_Cons length_take)
    from DecodeRune_width [OF d] obtain w' where w: "w = Suc w'" "w' \<le> length s"
      by (cases w) auto
    have t: "take w (c # s) @ rest = c # (take w' s @ rest)" by (simp add: w)
    from DecodeRune_prefix [OF d v, of rest]
    have p: "DecodeRune (c # (take w' s @ rest)) = (r, w)" by (simp only: t)
    have "decodeStrings (InString 0) cur done (c # (take w' s @ rest))
           = decodeStrings (InString (w - 1)) (cur @ EncodeRune r) done (take w' s @ rest)"
      by (rule decode_high [OF p DecodeRune_high [OF d False]])
    also have "\<dots> = decodeStrings (InString 0) (cur @ EncodeRune r) done rest"
      using w by (simp add: skip_bytes)
    finally show ?thesis by (simp only: q t e)
  qed
qed

lemma validUTF8_Cons:
  assumes "DecodeRune (c # s) = (r, w)"
  shows "validUTF8 (c # s) \<longleftrightarrow> \<not> (r = RuneError \<and> w = 1) \<and> validUTF8 (drop w (c # s))"
proof -
  from DecodeRune_width [OF assms] have "length (take w (c # s)) = w" by simp
  then show ?thesis
    by (simp add: validUTF8_def runes_Cons [OF assms] del: take_Suc_Cons length_take drop_Suc_Cons)
qed

lemma decode_quoted_body:
  "validUTF8 s \<Longrightarrow>
     decodeStrings (InString 0) cur done (concat (map quoteRune (runes s)) @ rest)
       = decodeStrings (InString 0) (cur @ s) done rest"
proof (induction "length s" arbitrary: s cur rule: less_induct)
  case less
  show ?case
  proof (cases s)
    case Nil
    then show ?thesis by (simp add: runes_def)
  next
    case (Cons c s')
    obtain r w where d: "DecodeRune (c # s') = (r, w)" by (cases "DecodeRune (c # s')")
    from less.prems [unfolded Cons validUTF8_Cons [OF d]]
    have v: "\<not> (r = RuneError \<and> w = 1)" and v': "validUTF8 (drop w (c # s'))"
      by blast+
    from DecodeRune_width [OF d] have "length (drop w (c # s')) < length s"
      by (simp add: Cons)
    note ih = less.hyps [OF this v', of "cur @ take w (c # s')"]
    have "concat (map quoteRune (runes s)) @ rest
        = quoteRune (r, take w (c # s'))
          @ (concat (map quoteRune (runes (drop w (c # s')))) @ rest)"
      by (simp only: Cons runes_Cons [OF d] list.map concat.simps append_assoc)
    then have "decodeStrings (InString 0) cur done (concat (map quoteRune (runes s)) @ rest)
        = decodeStrings (InString 0) (cur @ take w (c # s')) done
            (concat (map quoteRune (runes (drop w (c # s')))) @ rest)"
      by (simp only: decode_quoted_rune [OF d v])
    also have "\<dots> = decodeStrings (InString 0) ((cur @ take w (c # s')) @ drop w (c # s')) done rest"
      by (rule ih)
    finally show ?thesis by (simp only: Cons append_assoc append_take_drop_id)
  qed
qed

lemma decode_appendString:
  assumes "validUTF8 s"
  shows "decodeStrings (InString 0) [] done (tl (appendString s) @ rest)
           = decodeStrings AfterString [] (done @ [s]) rest"
proof -
  have "tl (appendString s) @ rest = concat (map quoteRune (runes s)) @ (CHR 0x22 # rest)"
    by (simp add: appendString_def)
  then show ?thesis
    by (simp add: decode_quoted_body [OF assms])
qed

lemma appendString_quote: "appendString s = CHR 0x22 # tl (appendString s)"
  by (simp add: appendString_def)

lemma decode_more_strings:
  "list_all validUTF8 xs \<Longrightarrow>
     decodeStrings AfterString [] done (concat (map (\<lambda>s. CHR '','' # appendString s) xs) @ '']'')
       = Some (done @ xs)"
proof (induction xs arbitrary: "done")
  case Nil
  show ?case by (simp add: isJSONSpace_def)
next
  case (Cons x xs)
  then have x: "validUTF8 x" and xs: "list_all validUTF8 xs" by simp_all
  have "concat (map (\<lambda>s. CHR '','' # appendString s) (x # xs)) @ '']''
      = CHR '','' # CHR 0x22 # (tl (appendString x)
          @ (concat (map (\<lambda>s. CHR '','' # appendString s) xs) @ '']''))"
    by (simp add: appendString_quote [of x, symmetric])
  moreover have "decodeStrings AfterString [] done (CHR '','' # CHR 0x22 # js)
      = decodeStrings (InString 0) [] done js" for js
    by (simp add: isJSONSpace_def)
  ultimately have "decodeStrings AfterString [] done
        (concat (map (\<lambda>s. CHR '','' # appendString s) (x # xs)) @ '']'')
      = decodeStrings (InString 0) [] done (tl (appendString x)
          @ (concat (map (\<lambda>s. CHR '','' # appendString s) xs) @ '']''))"
    by (simp only:)
  also have "\<dots> = Some ((done @ [x]) @ xs)"
    by (simp only: decode_appendString [OF x] Cons.IH [OF xs])
  finally show ?case by simp
qed

lemma Join_commas:
  "Join (y # ys) '','' = y @ concat (map (\<lambda>s. CHR '','' # s) ys)"
  by (induction ys arbitrary: y) simp_all

lemma marshalStrings_Cons:
  "marshalStrings (x # xs)
     = CHR ''['' # CHR 0x22 # (tl (appendString x)
         @ (concat (map (\<lambda>s. CHR '','' # appendString s) xs) @ '']''))"
proof -
  have "map (\<lambda>s. CHR '','' # s) (map appendString xs) = map (\<lambda>s. CHR '','' # appendString s) xs"
    by simp
  then show ?thesis
    by (simp add: marshalStrings_def Join_commas appendString_quote [of x, symmetric]
          del: map_map)
qed

text \<open>
  C8, for strings that are well-formed UTF-8. \<^verbatim>\<open>arrayToJSON\<close> of the empty list is \<^verbatim>\<open>[]\<close>,
  and the JSON text it returns for a list of well-formed strings is an array of strings
  that reads back as that list.
\<close>

theorem arrayToJSON_parses_back:
  "arrayToJSON [] = ''[]''
   \<and> (list_all validUTF8 arr \<longrightarrow> jsonDecodeStrings (arrayToJSON arr) = Some arr)"
proof (cases arr)
  case Nil
  show ?thesis by (simp add: Nil arrayToJSON_def jsonDecodeStrings_def isJSONSpace_def)
next
  case (Cons x xs)
  have e: "arrayToJSON [] = ''[]''" by (simp add: arrayToJSON_def)
  have "jsonDecodeStrings (arrayToJSON arr) = Some arr" if v: "list_all validUTF8 arr"
  proof -
    from v have x: "validUTF8 x" and xs: "list_all validUTF8 xs" by (simp_all add: Cons)
    have "jsonDecodeStrings (arrayToJSON arr)
        = decodeStrings (InString 0) [] [] (tl (appendString x)
            @ (concat (map (\<lambda>s. CHR '','' # appendString s) xs) @ '']''))"
      by (simp add: Cons arrayToJSON_def jsonDecodeStrings_def marshalStrings_Cons
            isJSONSpace_def)
    also have "\<dots> = Some ([] @ [x] @ xs)"
      by (simp only: decode_appendString [OF x] decode_more_strings [OF xs] append_assoc)
    finally show ?thesis by (simp add: Cons)
  qed
  with e show ?thesis by blast
qed

theorem arrayToJSON_parses_back_witness:
  "list_all validUTF8 [''a'', ''b<c'', [CHR 0xC3, CHR 0xA9, CHR 0x0A]]
   \<and> arrayToJSON [''a'', ''b''] = [CHR ''['', CHR 0x22, CHR ''a'', CHR 0x22, CHR '','',
        CHR 0x22, CHR ''b'', CHR 0x22, CHR '']'']
   \<and> jsonDecodeStrings (arrayToJSON [''a'', ''b<c'', [CHR 0xC3, CHR 0xA9, CHR 0x0A]])
       = Some [''a'', ''b<c'', [CHR 0xC3, CHR 0xA9, CHR 0x0A]]"
proof -
  have v: "list_all validUTF8 [''a'', ''b<c'', [CHR 0xC3, CHR 0xA9, CHR 0x0A]]"
    by code_simp
  have e: "arrayToJSON [''a'', ''b''] = [CHR ''['', CHR 0x22, CHR ''a'', CHR 0x22, CHR '','',
        CHR 0x22, CHR ''b'', CHR 0x22, CHR '']'']"
    by code_simp
  from v e arrayToJSON_parses_back [of "[''a'', ''b<c'', [CHR 0xC3, CHR 0xA9, CHR 0x0A]]"]
  show ?thesis by blast
qed

text \<open>
  A string with a byte that is not well-formed UTF-8 does not read back: the byte FF is
  written as the escape of U+FFFD and read back as the three bytes of that rune.
\<close>

theorem arrayToJSON_invalid_byte_counterexample:
  "jsonDecodeStrings (arrayToJSON [[CHR 0xFF]]) = Some [[CHR 0xEF, CHR 0xBF, CHR 0xBD]]
   \<and> jsonDecodeStrings (arrayToJSON [[CHR 0xFF]]) \<noteq> Some [[CHR 0xFF]]"
  by code_simp

text \<open>
  In general: every byte that is not well-formed UTF-8 is written as the escape of U+FFFD
  and read back as the three bytes of that rune, which makes the string longer. So what is
  read back is the list of the coerced strings, and it is the list that was written
  exactly when all its strings are well-formed UTF-8.
\<close>

lemma coerced_Nil: "coerced [] = []"
  by (simp add: coerced_def runes_def)

lemma coerced_Cons:
  assumes "DecodeRune (c # s) = (r, w)"
  shows "coerced (c # s)
           = (if r = RuneError \<and> w = 1 then EncodeRune RuneError else take w (c # s))
             @ coerced (drop w (c # s))"
proof -
  from DecodeRune_width [OF assms] have "length (take w (c # s)) = w" by simp
  then show ?thesis
    by (simp add: coerced_def runes_Cons [OF assms] del: take_Suc_Cons length_take drop_Suc_Cons)
qed

lemma EncodeRune_RuneError: "EncodeRune RuneError = [CHR 0xEF, CHR 0xBF, CHR 0xBD]"
  by code_simp

lemma decode_quoted_bad:
  "decodeStrings (InString 0) cur done (quoteRune (RuneError, [c]) @ rest)
     = decodeStrings (InString 0) (cur @ EncodeRune RuneError) done rest"
proof -
  have q: "quoteRune (RuneError, [c]) = [CHR 0x5C, CHR ''u'', CHR ''f'', CHR ''f'', CHR ''f'', CHR ''d'']"
    by (simp add: quoteRune_def RuneError_def)
  have g: "getu4 (CHR ''f'') (CHR ''f'') (CHR ''f'') (CHR ''d'') = Some RuneError"
    by code_simp
  have s: "\<not> isSurrogate RuneError"
    by (simp add: isSurrogate_def RuneError_def)
  from decode_escaped [OF g s, of cur "done" rest] show ?thesis
    by (simp only: q append_Cons append_Nil)
qed

lemma decode_quoted_any:
  "decodeStrings (InString 0) cur done (concat (map quoteRune (runes s)) @ rest)
     = decodeStrings (InString 0) (cur @ coerced s) done rest"
proof (induction "length s" arbitrary: s cur rule: less_induct)
  case less
  show ?case
  proof (cases s)
    case Nil
    then show ?thesis by (simp add: runes_def coerced_Nil)
  next
    case (Cons c s')
    obtain r w where d: "DecodeRune (c # s') = (r, w)" by (cases "DecodeRune (c # s')")
    let ?out = "(if r = RuneError \<and> w = 1 then EncodeRune RuneError else take w (c # s'))"
    from DecodeRune_width [OF d] have "length (drop w (c # s')) < length s"
      by (simp add: Cons)
    note ih = less.hyps [OF this, of "cur @ ?out"]
    have split: "concat (map quoteRune (runes s)) @ rest
        = quoteRune (r, take w (c # s'))
          @ (concat (map quoteRune (runes (drop w (c # s')))) @ rest)"
      by (simp only: Cons runes_Cons [OF d] list.map concat.simps append_assoc)
    have one: "decodeStrings (InString 0) cur done (quoteRune (r, take w (c # s')) @ js)
        = decodeStrings (InString 0) (cur @ ?out) done js" for js
    proof (cases "r = RuneError \<and> w = 1")
      case True
      then have r: "r = RuneError" and w1: "w = 1" by simp_all
      show ?thesis
        unfolding r w1 using decode_quoted_bad [of cur "done" c js] by simp
    next
      case False
      from decode_quoted_rune [OF d False, of cur "done" js] show ?thesis
        by (simp only: False if_False)
    qed
    have "decodeStrings (InString 0) cur done (concat (map quoteRune (runes s)) @ rest)
        = decodeStrings (InString 0) (cur @ ?out) done
            (concat (map quoteRune (runes (drop w (c # s')))) @ rest)"
      by (simp only: split one)
    also have "\<dots> = decodeStrings (InString 0) ((cur @ ?out) @ coerced (drop w (c # s'))) done rest"
      by (rule ih)
    finally show ?thesis by (simp only: Cons append_assoc coerced_Cons [OF d])
  qed
qed

lemma decode_appendString_any:
  "decodeStrings (InString 0) [] done (tl (appendString s) @ rest)
     = decodeStrings AfterString [] (done @ [coerced s]) rest"
proof -
  have "tl (appendString s) @ rest = concat (map quoteRune (runes s)) @ (CHR 0x22 # rest)"
    by (simp add: appendString_def)
  then show ?thesis
    by (simp add: decode_quoted_any)
qed

lemma decode_more_strings_any:
  "decodeStrings AfterString [] done (concat (map (\<lambda>s. CHR '','' # appendString s) xs) @ '']'')
     = Some (done @ map coerced xs)"
proof (induction xs arbitrary: "done")
  case Nil
  show ?case by (simp add: isJSONSpace_def)
next
  case (Cons x xs)
  have "concat (map (\<lambda>s. CHR '','' # appendString s) (x # xs)) @ '']''
      = CHR '','' # CHR 0x22 # (tl (appendString x)
          @ (concat (map (\<lambda>s. CHR '','' # appendString s) xs) @ '']''))"
    by (simp add: appendString_quote [of x, symmetric])
  moreover have "decodeStrings AfterString [] done (CHR '','' # CHR 0x22 # js)
      = decodeStrings (InString 0) [] done js" for js
    by (simp add: isJSONSpace_def)
  ultimately have "decodeStrings AfterString [] done
        (concat (map (\<lambda>s. CHR '','' # appendString s) (x # xs)) @ '']'')
      = decodeStrings (InString 0) [] done (tl (appendString x)
          @ (concat (map (\<lambda>s. CHR '','' # appendString s) xs) @ '']''))"
    by (simp only:)
  also have "\<dots> = Some ((done @ [coerced x]) @ map coerced xs)"
    by (simp only: decode_appendString_any Cons.IH)
  finally show ?case by simp
qed

lemma arrayToJSON_reads_back_coerced:
  "jsonDecodeStrings (arrayToJSON arr) = Some (map coerced arr)"
proof (cases arr)
  case Nil
  show ?thesis by (simp add: Nil arrayToJSON_def jsonDecodeStrings_def isJSONSpace_def)
next
  case (Cons x xs)
  have "jsonDecodeStrings (arrayToJSON arr)
      = decodeStrings (InString 0) [] [] (tl (appendString x)
          @ (concat (map (\<lambda>s. CHR '','' # appendString s) xs) @ '']''))"
    by (simp add: Cons arrayToJSON_def jsonDecodeStrings_def marshalStrings_Cons
          isJSONSpace_def)
  also have "\<dots> = Some ([] @ [coerced x] @ map coerced xs)"
    by (simp only: decode_appendString_any decode_more_strings_any append_assoc)
  finally show ?thesis by (simp add: Cons)
qed

lemma coerced_length:
  "length s \<le> length (coerced s) \<and> (length (coerced s) = length s \<longrightarrow> validUTF8 s)"
proof (induction "length s" arbitrary: s rule: less_induct)
  case less
  show ?case
  proof (cases s)
    case Nil
    then show ?thesis by (simp add: coerced_Nil validUTF8_def runes_def)
  next
    case (Cons c s')
    obtain r w where d: "DecodeRune (c # s') = (r, w)" by (cases "DecodeRune (c # s')")
    from DecodeRune_width [OF d] have w: "1 \<le> w" "w \<le> length (c # s')" by simp_all
    then have m: "length (drop w (c # s')) < length s"
      by (simp add: Cons)
    note ih = less.hyps [OF m]
    have t: "length (take w (c # s')) = w" using w by simp
    have l: "length s = w + length (drop w (c # s'))"
      using w by (simp add: Cons)
    show ?thesis
    proof (cases "r = RuneError \<and> w = 1")
      case True
      then have "length (coerced s) = 3 + length (coerced (drop w (c # s')))"
        by (simp only: Cons coerced_Cons [OF d] if_True length_append EncodeRune_RuneError) simp
      with ih l True show ?thesis by simp
    next
      case False
      then have "length (coerced s) = w + length (coerced (drop w (c # s')))"
        by (simp only: Cons coerced_Cons [OF d] if_False length_append t)
      with ih l False show ?thesis
        by (simp add: Cons validUTF8_Cons [OF d])
    qed
  qed
qed

lemma coerced_valid: "validUTF8 s \<Longrightarrow> coerced s = s"
proof (induction "length s" arbitrary: s rule: less_induct)
  case less
  show ?case
  proof (cases s)
    case Nil
    then show ?thesis by (simp add: coerced_Nil)
  next
    case (Cons c s')
    obtain r w where d: "DecodeRune (c # s') = (r, w)" by (cases "DecodeRune (c # s')")
    from less.prems [unfolded Cons validUTF8_Cons [OF d]]
    have v: "\<not> (r = RuneError \<and> w = 1)" and v': "validUTF8 (drop w (c # s'))"
      by blast+
    from DecodeRune_width [OF d] have "length (drop w (c # s')) < length s"
      by (simp add: Cons)
    from less.hyps [OF this v'] v show ?thesis
      by (simp only: Cons coerced_Cons [OF d] if_False append_take_drop_id)
  qed
qed

lemma coerced_iff: "coerced s = s \<longleftrightarrow> validUTF8 s"
  using coerced_length [of s] coerced_valid [of s] by auto

lemma arrayToJSON_reads_back_iff:
  "jsonDecodeStrings (arrayToJSON arr) = Some arr \<longleftrightarrow> list_all validUTF8 arr"
proof -
  have "map coerced arr = arr \<longleftrightarrow> list_all validUTF8 arr"
    by (induction arr) (simp_all add: coerced_iff)
  then show ?thesis
    by (simp only: arrayToJSON_reads_back_coerced option.inject)
qed


section \<open>Display names\<close>

lemma concat_runes: "concat (map snd (runes s)) = s"
proof (induction "length s" arbitrary: s rule: less_induct)
  case less
  show ?case
  proof (cases s)
    case Nil
    then show ?thesis by (simp add: runes_def)
  next
    case (Cons c s')
    obtain r w where d: "DecodeRune (c # s') = (r, w)" by (cases "DecodeRune (c # s')")
    from DecodeRune_width [OF d] have "length (drop w (c # s')) < length s"
      by (simp add: Cons)
    from less [OF this] show ?thesis
      by (simp only: Cons runes_Cons [OF d] list.map concat.simps snd_conv append_take_drop_id)
  qed
qed

lemma runes_ascii_start:
  assumes "(of_char c :: nat) < 0x80"
  shows "runes (c # s) = (of_char c, [c]) # runes s"
proof -
  from assms have d: "DecodeRune (c # s) = (of_char c, 1)" by (simp add: Let_def)
  from runes_Cons [OF d] show ?thesis by simp
qed

lemma runes_Nil: "runes [] = []"
  by (simp add: runes_def)

lemma capitalize_ascii_start:
  assumes "word \<noteq> []" and "(of_char (hd word) :: nat) < 0x80"
  shows "capitalize U word = capitalized_in_words U word"
proof -
  from assms(1) obtain c t where w: "word = c # t" by (cases word) auto
  with assms(2) have a: "(of_char c :: nat) < 0x80" by simp
  have e: "EncodeRune (of_char c) = [c]" using a by (simp add: EncodeRune_def)
  have u: "ToUpper U [c] = EncodeRune (unicode_ToUpper U (of_char c))"
    by (simp add: ToUpper_def Map_runes_def runes_ascii_start [OF a] runes_Nil)
  show ?thesis
    by (simp add: w capitalize_def capitalized_in_words_def e u runes_ascii_start [OF a]
          concat_runes)
qed

lemma runes_ascii:
  "\<forall>c \<in> set s. (of_char c :: nat) < 0x80 \<Longrightarrow> runes s = map asciiRune s"
  by (induction s) (simp_all add: runes_Nil runes_ascii_start asciiRune_def)

lemma concat_asciiRunes: "concat (map snd (map asciiRune s)) = s"
  by (induction s) (simp_all add: asciiRune_def)

lemma TrimSpace_ascii:
  assumes "\<forall>c \<in> set s. (of_char c :: nat) < 0x80"
  shows "TrimSpace s
    = rev (dropWhile (\<lambda>c. IsSpace (of_char c)) (rev (dropWhile (\<lambda>c. IsSpace (of_char c)) s)))"
proof -
  let ?P = "\<lambda>(r, bs). IsSpace r" and ?sp = "\<lambda>c. IsSpace (of_char c)"
  have d: "dropWhile ?P (map asciiRune xs) = map asciiRune (dropWhile ?sp xs)" for xs
    by (induction xs) (simp_all add: asciiRune_def)
  have "rev (dropWhile ?P (rev (dropWhile ?P (map asciiRune s))))
      = map asciiRune (rev (dropWhile ?sp (rev (dropWhile ?sp s))))"
    by (simp only: d rev_map)
  then show ?thesis
    by (simp only: TrimSpace_def runes_ascii [OF assms] concat_asciiRunes)
qed

lemma fields_leading:
  "\<forall>x \<in> set pre. IsSpace (fst x) \<Longrightarrow> fields_runes (pre @ rs) [] = fields_runes rs []"
  by (induction pre) (auto simp: split_def)

lemma fields_only_spaces:
  "\<forall>x \<in> set post. IsSpace (fst x) \<Longrightarrow>
     fields_runes post cur = (if cur = [] then [] else [cur])"
proof (induction post arbitrary: cur)
  case Nil
  show ?case by simp
next
  case (Cons x post)
  obtain r bs where x: "x = (r, bs)" by (cases x)
  from Cons.prems have "IsSpace r" and p: "\<forall>x \<in> set post. IsSpace (fst x)" by (simp_all add: x)
  then show ?case by (simp add: x Cons.IH [OF p])
qed

lemma fields_trailing:
  "\<forall>x \<in> set post. IsSpace (fst x) \<Longrightarrow> fields_runes (rs @ post) cur = fields_runes rs cur"
proof (induction rs arbitrary: cur)
  case Nil
  then show ?case by (simp add: fields_only_spaces)
next
  case (Cons x rs)
  obtain r bs where x: "x = (r, bs)" by (cases x)
  show ?case by (simp add: x Cons.IH [OF Cons.prems])
qed

lemma fields_words:
  "word \<in> set (fields_runes rs cur) \<Longrightarrow>
     word \<noteq> [] \<and> set word \<subseteq> set cur \<union> (\<Union>x \<in> set rs. set (snd x))"
proof (induction rs arbitrary: cur)
  case Nil
  then show ?case by (auto split: if_splits)
next
  case (Cons x rs)
  obtain r bs where x: "x = (r, bs)" by (cases x)
  show ?case
  proof (cases "IsSpace r")
    case True
    with Cons.prems have "word = cur \<and> cur \<noteq> [] \<or> word \<in> set (fields_runes rs [])"
      by (auto simp: x split: if_splits)
    then show ?thesis
    proof
      assume "word = cur \<and> cur \<noteq> []"
      then show ?thesis by auto
    next
      assume "word \<in> set (fields_runes rs [])"
      from Cons.IH [OF this] show ?thesis by auto
    qed
  next
    case False
    with Cons.prems have "word \<in> set (fields_runes rs (cur @ bs))" by (simp add: x)
    from Cons.IH [OF this] show ?thesis by (auto simp: x)
  qed
qed

lemma bytes_of_asciiRunes: "(\<Union>x \<in> set (map asciiRune s). set (snd x)) = set s"
  by (induction s) (simp_all add: asciiRune_def)

lemma replaced_separators:
  "ReplaceAll (ReplaceAll s ''_'' '' '') ''-'' '' ''
     = map (\<lambda>c. if c = CHR ''_'' \<or> c = CHR ''-'' then CHR '' '' else c) s"
  by (simp add: ReplaceAll_single)

lemma trimmed_parts:
  "\<exists>pre post. s = pre @ rev (dropWhile P (rev (dropWhile P s))) @ post
     \<and> (\<forall>c \<in> set pre. P c) \<and> (\<forall>c \<in> set post. P c)"
proof -
  let ?d = "dropWhile P s"
  have 1: "s = takeWhile P s @ ?d" by simp
  have "rev ?d = takeWhile P (rev ?d) @ dropWhile P (rev ?d)" by simp
  then have "rev (rev ?d) = rev (takeWhile P (rev ?d) @ dropWhile P (rev ?d))" by simp
  then have 2: "?d = rev (dropWhile P (rev ?d)) @ rev (takeWhile P (rev ?d))"
    by (simp only: rev_rev_ident rev_append)
  have "s = takeWhile P s @ rev (dropWhile P (rev ?d)) @ rev (takeWhile P (rev ?d))"
    using 1 2 by simp
  moreover have "\<forall>c \<in> set (takeWhile P s). P c" by (auto dest: set_takeWhileD)
  moreover have "\<forall>c \<in> set (rev (takeWhile P (rev ?d))). P c" by (auto dest: set_takeWhileD)
  ultimately show ?thesis by blast
qed

text \<open>
  On a title of ASCII bytes only, \<^verbatim>\<open>cleanDisplayName\<close> returns the display name as
  described.
\<close>

lemma cleanDisplayName_ascii:
  assumes a: "\<forall>c \<in> set title. (of_char c :: nat) < 0x80"
  shows "cleanDisplayName U title = displayName_in_words U title"
proof -
  let ?sp = "\<lambda>c. IsSpace (of_char c)"
  let ?f = "\<lambda>c. if c = CHR ''_'' \<or> c = CHR ''-'' then CHR '' '' else c"
  let ?t = "rev (dropWhile ?sp (rev (dropWhile ?sp title)))"
  from trimmed_parts [of title ?sp] obtain pre post where
    p: "title = pre @ ?t @ post" and pre: "\<forall>c \<in> set pre. ?sp c" and post: "\<forall>c \<in> set post. ?sp c"
    by blast
  have f: "(of_char (?f c) :: nat) < 0x80" if "(of_char c :: nat) < 0x80" for c
    using that by simp
  have keep: "?sp (?f c)" if "?sp c" for c
    using that by (auto simp: IsSpace_def)
  have at: "\<forall>c \<in> set ?t. (of_char c :: nat) < 0x80"
    using a p by (metis Un_iff set_append)
  have aft: "\<forall>c \<in> set (map ?f ?t). (of_char c :: nat) < 0x80"
    using at f by auto
  have af: "\<forall>c \<in> set (map ?f title). (of_char c :: nat) < 0x80"
    using a f by auto
  have "map ?f title = map ?f pre @ map ?f ?t @ map ?f post"
    using p by (metis map_append)
  then have "map asciiRune (map ?f title)
      = map asciiRune (map ?f pre @ map ?f ?t @ map ?f post)"
    by (rule arg_cong)
  then have "map asciiRune (map ?f title)
      = map asciiRune (map ?f pre) @ map asciiRune (map ?f ?t) @ map asciiRune (map ?f post)"
    by (simp only: map_append)
  with runes_ascii [OF af] have "runes (map ?f title)
      = map asciiRune (map ?f pre) @ map asciiRune (map ?f ?t) @ map asciiRune (map ?f post)"
    by (rule trans)
  moreover have "\<forall>x \<in> set (map asciiRune (map ?f pre)). IsSpace (fst x)"
    using pre keep by (auto simp: asciiRune_def)
  moreover have "\<forall>x \<in> set (map asciiRune (map ?f post)). IsSpace (fst x)"
    using post keep by (auto simp: asciiRune_def)
  ultimately have "Fields (map ?f title) = fields_runes (map asciiRune (map ?f ?t)) []"
    by (simp only: Fields_def fields_leading fields_trailing)
  then have w: "Fields (map ?f title) = Fields (map ?f ?t)"
    by (simp only: Fields_def runes_ascii [OF aft])
  have c: "capitalize U word = capitalized_in_words U word"
    if "word \<in> set (Fields (map ?f ?t))" for word
  proof -
    from that have "word \<in> set (fields_runes (map asciiRune (map ?f ?t)) [])"
      by (simp only: Fields_def runes_ascii [OF aft])
    from fields_words [OF this, unfolded bytes_of_asciiRunes]
    have "word \<noteq> [] \<and> set word \<subseteq> set (map ?f ?t)"
      by (simp del: set_map)
    then have n: "word \<noteq> []" and s: "set word \<subseteq> set (map ?f ?t)"
      by blast+
    from n have "hd word \<in> set word" by simp
    with s aft have "(of_char (hd word) :: nat) < 0x80" by blast
    with n show ?thesis by (rule capitalize_ascii_start)
  qed
  have "cleanDisplayName U title = Join (map (capitalize U) (Fields (map ?f ?t))) '' ''"
    by (simp only: cleanDisplayName_def Let_def TrimSpace_ascii [OF a] replaced_separators)
  also have "map (capitalize U) (Fields (map ?f ?t))
           = map (capitalized_in_words U) (Fields (map ?f ?t))"
    using c by (rule map_cong [OF refl])
  finally show ?thesis
    by (simp only: displayName_in_words_def w)
qed

text \<open>
  C7 at the title \<^verbatim>\<open>eclair\<close> written with an acute accent on its first letter (the bytes
  C3 A9 and \<^verbatim>\<open>clair\<close>). The description gives the same word with its first letter in upper
  case (C3 89 and \<^verbatim>\<open>clair\<close>). \<^verbatim>\<open>cleanDisplayName\<close> takes the first byte of the word for
  its first character: it returns the encoding of U+00C3, then U+FFFD for the byte A9 left
  without its lead byte, then \<^verbatim>\<open>clair\<close>.
\<close>

theorem cleanDisplayName_splits_first_rune:
  "cleanDisplayName latin1 ([CHR 0xC3, CHR 0xA9] @ ''clair'')
     = [CHR 0xC3, CHR 0x83, CHR 0xEF, CHR 0xBF, CHR 0xBD] @ ''clair''
   \<and> displayName_in_words latin1 ([CHR 0xC3, CHR 0xA9] @ ''clair'')
     = [CHR 0xC3, CHR 0x89] @ ''clair''
   \<and> cleanDisplayName latin1 ([CHR 0xC3, CHR 0xA9] @ ''clair'')
     \<noteq> displayName_in_words latin1 ([CHR 0xC3, CHR 0xA9] @ ''clair'')"
  by code_simp

end
